theory Spec2Isabelle
  imports Main
begin

section \<open>Data model\<close>

text \<open>
  Values of type \<^verbatim>\<open>any\<close> that travel through the agent (tool arguments, tool results)
  are JSON values. Only the distinction "is a string" / "is not a string" is inspected
  by the code (\<^verbatim>\<open>typeof toolResult.result === "string"\<close>).
\<close>

datatype json =
    JNull
  | JBool bool
  | JNum int
  | JStr string
  | JArr "json list"
  | JObj "(string \<times> json) list"

text \<open>
  An entry of \<^verbatim>\<open>AIMessage.tool_calls\<close>. The field \<^verbatim>\<open>id\<close> is optional in the message
  library (\<^verbatim>\<open>id?: string\<close>), and the code guards every use of it by a truthiness
  test (\<^verbatim>\<open>!toolCall.id\<close>, \<^verbatim>\<open>if (tc.id)\<close>).
\<close>

record tool_call_request =
  tc_id :: "string option"
  tc_name :: string
  tc_args :: json

text \<open>The repository's own types \<^verbatim>\<open>ToolCall = {name, args}\<close> and
  \<^verbatim>\<open>ToolResult = {name, result}\<close> (types.ts).\<close>

record tool_call =
  call_name :: string
  call_args :: json

record tool_result =
  result_name :: string
  result :: json

text \<open>
  Messages are objects, and the reconciler compares them by reference
  (\<^verbatim>\<open>processedMessages.includes(msg)\<close>). Every message therefore carries the identity of
  its object as its first component: two occurrences of one object are equal values,
  two different objects differ in that component even when their contents agree.
  Messages are never mutated, so equality of values is reference equality.
  The second component is the text content (structured, non-string content of the
  message library is not modelled). An \<^verbatim>\<open>AIMessage\<close> has its \<^verbatim>\<open>tool_calls\<close>, a
  \<^verbatim>\<open>ToolMessage\<close> its \<^verbatim>\<open>tool_call_id\<close>.
\<close>

datatype message =
    SystemMessage nat string
  | HumanMessage nat string
  | AIMessage nat string "tool_call_request list"
  | ToolMessage nat string string

fun content :: "message \<Rightarrow> string" where
  "content (SystemMessage a c) = c"
| "content (HumanMessage a c) = c"
| "content (AIMessage a c tcs) = c"
| "content (ToolMessage a c t) = c"

text \<open>\<^verbatim>\<open>msg instanceof AIMessage && msg.tool_calls && msg.tool_calls.length > 0\<close>\<close>

fun hasToolCalls :: "message \<Rightarrow> bool" where
  "hasToolCalls (AIMessage a c tcs) = (tcs \<noteq> [])"
| "hasToolCalls m = False"

text \<open>Truthiness of an optional string: neither \<^verbatim>\<open>undefined\<close> nor the empty string.\<close>

fun truthy :: "string option \<Rightarrow> bool" where
  "truthy None = False"
| "truthy (Some s) = (s \<noteq> [])"

text \<open>The entries written by \<^verbatim>\<open>logger.warn\<close> that the development tracks.\<close>

datatype log_entry =
    WarnNoToolCallId nat string

section \<open>ToolCallProcessor: creating tool messages\<close>

text \<open>\<^verbatim>\<open>lastAIMessageWithTools.tool_calls?.[index]\<close>: \<^verbatim>\<open>undefined\<close> out of range.\<close>

definition at_index :: "'a list \<Rightarrow> nat \<Rightarrow> 'a option" where
  "at_index xs i = (if i < length xs then Some (xs ! i) else None)"

text \<open>
  The content of a new tool message: a string result verbatim, anything else through
  \<^verbatim>\<open>JSON.stringify(result, null, 2)\<close>. The pretty-printer belongs to the language
  runtime and is a parameter \<open>stringify\<close> of the model.
\<close>

fun resultContent :: "(json \<Rightarrow> string) \<Rightarrow> json \<Rightarrow> string" where
  "resultContent stringify (JStr s) = s"
| "resultContent stringify v = stringify v"

text \<open>
  The body of \<^verbatim>\<open>toolResults.forEach((toolResult, index) => ...)\<close> in
  \<^verbatim>\<open>createToolMessages\<close>. The object created at index \<open>i\<close> gets the identity
  \<open>fresh + i\<close>, where \<open>fresh\<close> is the first unused identity. The result is the list of
  pushed messages and the warnings logged.
\<close>

fun createToolMessages_forEach ::
  "(json \<Rightarrow> string) \<Rightarrow> nat \<Rightarrow> tool_call_request list \<Rightarrow> tool_result list \<Rightarrow> nat
    \<Rightarrow> message list \<times> log_entry list" where
  "createToolMessages_forEach stringify fresh tcs [] index = ([], [])"
| "createToolMessages_forEach stringify fresh tcs (toolResult # rest) index =
     (let (toolMessages, warnings) =
            createToolMessages_forEach stringify fresh tcs rest (Suc index)
      in case at_index tcs index of
           None \<Rightarrow> (toolMessages, WarnNoToolCallId index (result_name toolResult) # warnings)
         | Some toolCall \<Rightarrow>
             (if \<not> truthy (tc_id toolCall)
              then (toolMessages, WarnNoToolCallId index (result_name toolResult) # warnings)
              else (ToolMessage (fresh + index)
                      (resultContent stringify (result toolResult))
                      (the (tc_id toolCall)) # toolMessages,
                    warnings)))"

fun createToolMessages ::
  "(json \<Rightarrow> string) \<Rightarrow> nat \<Rightarrow> tool_result list \<Rightarrow> message option
    \<Rightarrow> message list \<times> log_entry list" where
  "createToolMessages stringify fresh toolResults (Some (AIMessage a c tcs)) =
     createToolMessages_forEach stringify fresh tcs toolResults 0"
| "createToolMessages stringify fresh toolResults lastAIMessageWithTools = ([], [])"

text \<open>
  \<^verbatim>\<open>findLastAIMessageWithTools\<close> scans from the last index down to 0 and returns the
  first message with tool calls that it meets.
\<close>

fun findLast_scan :: "message list \<Rightarrow> message option" where
  "findLast_scan [] = None"
| "findLast_scan (msg # earlier) = (if hasToolCalls msg then Some msg else findLast_scan earlier)"

definition findLastAIMessageWithTools :: "message list \<Rightarrow> message option" where
  "findLastAIMessageWithTools messages = findLast_scan (rev messages)"

section \<open>Errors\<close>

text \<open>
  \<^verbatim>\<open>logger.error\<close> has return type \<^verbatim>\<open>never\<close>: it writes the log entry and then throws
  \<^verbatim>\<open>new Error(message + meta)\<close> (\<^verbatim>\<open>Logger.error\<close> in utils/logger.ts). A call of it is
  therefore an exception, and no statement after it in the same block runs. Each
  constructor below stands for one call site, with the meta data given to it:
  \<^item> \<open>ToolNotFound name\<close>: the tool executor found no tool of that name;
  \<^item> \<open>ToolExecutionFailed name\<close>: the \<^verbatim>\<open>catch\<close> block of the tool executor;
  \<^item> \<open>UnfinishedToolCalls ids\<close>: \<^verbatim>\<open>processMessages\<close> met an assistant message whose
    tool calls have no response while nothing is pending;
  \<^item> \<open>CannotSendToLLM ids hasPendingToolCalls\<close> and
    \<open>UnfinishedDespiteToolResults ids toolResultsCount toolCallsCount\<close>: the two
    branches of the validation in \<^verbatim>\<open>getLLMWithTools\<close>.
  The remaining constructors are exceptions of the collaborators: a tool that throws
  or rejects (\<open>ToolThrew message\<close>), the model call (\<open>ModelFailure\<close>) and
  \<^verbatim>\<open>JSON.parse\<close> (\<open>ArgsParseFailure\<close>).
\<close>

datatype error =
    ToolNotFound string
  | ToolExecutionFailed string
  | UnfinishedToolCalls "string list"
  | CannotSendToLLM "string list" bool
  | UnfinishedDespiteToolResults "string list" nat nat
  | ToolThrew string
  | ModelFailure string
  | ArgsParseFailure string

definition logger_error :: "error \<Rightarrow> error + 'a" where
  "logger_error e = Inl e"

section \<open>ToolCallProcessor: the filtering pass\<close>

fun isToolMessageWithId :: "message \<Rightarrow> bool" where
  "isToolMessageWithId (ToolMessage a c t) = (t \<noteq> [])"
| "isToolMessageWithId m = False"

fun tool_call_id :: "message \<Rightarrow> string" where
  "tool_call_id (ToolMessage a c t) = t"
| "tool_call_id m = []"

fun tool_calls :: "message \<Rightarrow> tool_call_request list" where
  "tool_calls (AIMessage a c tcs) = tcs"
| "tool_calls m = []"

text \<open>First pass: \<^verbatim>\<open>toolMessageMap.set(msg.tool_call_id, msg)\<close> for every tool message
  with an id, first over the history, then over the new tool messages; a later entry
  replaces an earlier one of the same id.\<close>

definition collectToolMessage :: "(string \<rightharpoonup> message) \<Rightarrow> message \<Rightarrow> (string \<rightharpoonup> message)" where
  "collectToolMessage m msg = (if isToolMessageWithId msg then m(tool_call_id msg \<mapsto> msg) else m)"

definition toolMessageMap :: "message list \<Rightarrow> message list \<Rightarrow> (string \<rightharpoonup> message)" where
  "toolMessageMap messages newToolMessages =
     foldl collectToolMessage (foldl collectToolMessage Map.empty messages) newToolMessages"

text \<open>\<^verbatim>\<open>msg.tool_calls.every((tc) => { if (!tc.id) return false; return toolMessageMap.has(tc.id); })\<close>\<close>

definition hasResponse :: "(string \<rightharpoonup> message) \<Rightarrow> tool_call_request \<Rightarrow> bool" where
  "hasResponse tm tc = (truthy (tc_id tc) \<and> tm (the (tc_id tc)) \<noteq> None)"

definition allToolCallsHaveResponses :: "(string \<rightharpoonup> message) \<Rightarrow> tool_call_request list \<Rightarrow> bool" where
  "allToolCallsHaveResponses tm tcs = list_all (hasResponse tm) tcs"

text \<open>\<^verbatim>\<open>msg.tool_calls.forEach\<close> after the assistant message has been pushed: the tool
  message of each call is pushed unless that object is in the output already.\<close>

fun pushToolMessages ::
  "(string \<rightharpoonup> message) \<Rightarrow> tool_call_request list \<Rightarrow> message list \<Rightarrow> message list" where
  "pushToolMessages tm [] processedMessages = processedMessages"
| "pushToolMessages tm (tc # rest) processedMessages =
     (if hasResponse tm tc
      then (let toolMsg = the (tm (the (tc_id tc)))
            in if toolMsg \<in> set processedMessages
               then pushToolMessages tm rest processedMessages
               else pushToolMessages tm rest (processedMessages @ [toolMsg]))
      else pushToolMessages tm rest processedMessages)"

text \<open>\<^verbatim>\<open>msg.tool_calls.map((tc) => tc.id).filter((id) => id && !toolMessageMap.has(id))\<close>\<close>

definition missingIds :: "(string \<rightharpoonup> message) \<Rightarrow> tool_call_request list \<Rightarrow> string list" where
  "missingIds tm tcs =
     map the (filter (\<lambda>i. truthy i \<and> tm (the i) = None) (map tc_id tcs))"

text \<open>
  Second pass, the loop \<^verbatim>\<open>for (const msg of messages)\<close> with the output list
  \<^verbatim>\<open>processedMessages\<close> as accumulator. When an assistant message has a tool call
  without response, the code logs a warning and skips the message if tool results or
  pending calls exist, and calls \<^verbatim>\<open>logger.error\<close> otherwise.
\<close>

fun processMessages_loop ::
  "(string \<rightharpoonup> message) \<Rightarrow> bool \<Rightarrow> bool \<Rightarrow> message list \<Rightarrow> message list
    \<Rightarrow> error + message list" where
  "processMessages_loop tm hasToolResults hasPendingToolCalls [] processedMessages =
     Inr processedMessages"
| "processMessages_loop tm hasToolResults hasPendingToolCalls (msg # rest) processedMessages =
     (if hasToolCalls msg then
        (if allToolCallsHaveResponses tm (tool_calls msg)
         then processMessages_loop tm hasToolResults hasPendingToolCalls rest
                (pushToolMessages tm (tool_calls msg) (processedMessages @ [msg]))
         else if hasToolResults \<or> hasPendingToolCalls
         then processMessages_loop tm hasToolResults hasPendingToolCalls rest processedMessages
         else logger_error (UnfinishedToolCalls (missingIds tm (tool_calls msg))))
      else if isToolMessageWithId msg then
        (if msg \<in> set processedMessages
         then processMessages_loop tm hasToolResults hasPendingToolCalls rest processedMessages
         else processMessages_loop tm hasToolResults hasPendingToolCalls rest
                (processedMessages @ [msg]))
      else processMessages_loop tm hasToolResults hasPendingToolCalls rest
             (processedMessages @ [msg]))"

definition processMessages ::
  "message list \<Rightarrow> message list \<Rightarrow> bool \<Rightarrow> bool \<Rightarrow> error + message list" where
  "processMessages messages newToolMessages hasToolResults hasPendingToolCalls =
     processMessages_loop (toolMessageMap messages newToolMessages)
       hasToolResults hasPendingToolCalls messages []"

section \<open>ToolCallProcessor: validation\<close>

text \<open>A \<^verbatim>\<open>Set<string>\<close> keeps its elements in insertion order; \<^verbatim>\<open>add\<close> of an element
  that is present changes nothing.\<close>

definition set_add :: "string list \<Rightarrow> string \<Rightarrow> string list" where
  "set_add s x = (if x \<in> set s then s else s @ [x])"

definition addToolCallId :: "string list \<Rightarrow> tool_call_request \<Rightarrow> string list" where
  "addToolCallId s tc = (if truthy (tc_id tc) then set_add s (the (tc_id tc)) else s)"

fun validate_scan :: "message list \<Rightarrow> string list \<Rightarrow> string list \<Rightarrow> string list \<times> string list" where
  "validate_scan [] toolCallIds toolMessageIds = (toolCallIds, toolMessageIds)"
| "validate_scan (msg # rest) toolCallIds toolMessageIds =
     validate_scan rest
       (foldl addToolCallId toolCallIds (tool_calls msg))
       (if isToolMessageWithId msg then set_add toolMessageIds (tool_call_id msg)
        else toolMessageIds)"

record validation =
  isValid :: bool
  missingToolCallIds :: "string list"

definition validateToolCalls :: "message list \<Rightarrow> validation" where
  "validateToolCalls messages =
     (let (toolCallIds, toolMessageIds) = validate_scan messages [] [];
          missing = filter (\<lambda>toolCallId. toolCallId \<notin> set toolMessageIds) toolCallIds
      in \<lparr>isValid = (missing = []), missingToolCallIds = missing\<rparr>)"

section \<open>Tool registry and tool executor\<close>

text \<open>
  A tool's \<^verbatim>\<open>execute\<close> takes the arguments and either returns a value or throws
  (rejects); \<open>Inl message\<close> is the message of what it throws
  (\<^verbatim>\<open>error instanceof Error ? error.message : String(error)\<close>). The registry is the map
  from names to tools; \<^verbatim>\<open>toolRegistry.get\<close> is its application.
\<close>

type_synonym tool = "json \<Rightarrow> string + json"
type_synonym registry = "string \<rightharpoonup> tool"

text \<open>The \<^verbatim>\<open>try\<close> block of \<^verbatim>\<open>executeTools\<close>, up to the value of
  \<^verbatim>\<open>await tool.execute(toolCall.args)\<close>. For a missing tool \<^verbatim>\<open>logger.error\<close> throws,
  so the \<^verbatim>\<open>continue\<close> that follows it is not reached.\<close>

definition executeTools_try :: "registry \<Rightarrow> tool_call \<Rightarrow> error + json" where
  "executeTools_try reg toolCall =
     (case reg (call_name toolCall) of
        None \<Rightarrow> logger_error (ToolNotFound (call_name toolCall))
      | Some tool \<Rightarrow>
          (case tool (call_args toolCall) of
             Inl msg \<Rightarrow> Inl (ToolThrew msg)
           | Inr res \<Rightarrow> Inr res))"

text \<open>
  The loop \<^verbatim>\<open>for (const toolCall of toolCalls)\<close>. The \<^verbatim>\<open>catch\<close> block starts with
  \<^verbatim>\<open>logger.error\<close>, which throws out of \<^verbatim>\<open>executeTools\<close>; the
  \<^verbatim>\<open>toolResults.push({name, result: {error: ...}})\<close> behind it is not reached.
\<close>

fun executeTools_loop :: "registry \<Rightarrow> tool_call list \<Rightarrow> tool_result list \<Rightarrow> error + tool_result list" where
  "executeTools_loop reg [] toolResults = Inr toolResults"
| "executeTools_loop reg (toolCall # rest) toolResults =
     (case executeTools_try reg toolCall of
        Inr res \<Rightarrow>
          executeTools_loop reg rest
            (toolResults @ [\<lparr>result_name = call_name toolCall, result = res\<rparr>])
      | Inl thrown \<Rightarrow> logger_error (ToolExecutionFailed (call_name toolCall)))"

definition executeTools :: "registry \<Rightarrow> tool_call list \<Rightarrow> error + tool_result list" where
  "executeTools reg toolCalls = executeTools_loop reg toolCalls []"

section \<open>Agent state\<close>

text \<open>\<^verbatim>\<open>AgentState\<close>: the message history, the tool calls to execute and the tool
  results. A node returns a partial state; a field that is absent from it is \<open>None\<close>.\<close>

record agent_state =
  messages :: "message list"
  toolCalls :: "tool_call list"
  toolResults :: "tool_result list"

record state_update =
  upd_messages :: "message list option"
  upd_toolCalls :: "tool_call list option"
  upd_toolResults :: "tool_result list option"

text \<open>The reducers of the state: \<^verbatim>\<open>messagesReducer\<close> appends, \<^verbatim>\<open>replaceReducer\<close> takes
  the new value when there is one.\<close>

definition messagesReducer :: "message list \<Rightarrow> message list \<Rightarrow> message list" where
  "messagesReducer x y = x @ y"

definition replaceReducer :: "'a \<Rightarrow> 'a option \<Rightarrow> 'a" where
  "replaceReducer x y = (case y of Some v \<Rightarrow> v | None \<Rightarrow> x)"

definition applyUpdate :: "agent_state \<Rightarrow> state_update \<Rightarrow> agent_state" where
  "applyUpdate st u =
     \<lparr>messages = (case upd_messages u of Some y \<Rightarrow> messagesReducer (messages st) y
                   | None \<Rightarrow> messages st),
      toolCalls = replaceReducer (toolCalls st) (upd_toolCalls u),
      toolResults = replaceReducer (toolResults st) (upd_toolResults u)\<rparr>"

section \<open>The agent node\<close>

text \<open>
  What the node is built from: the model (\<open>Inl\<close> when the call fails, otherwise the
  content and the tool calls of the response), the tool registry, the system prompt of
  the environment, and the two functions of the language runtime,
  \<^verbatim>\<open>JSON.stringify(v, null, 2)\<close> and \<^verbatim>\<open>JSON.parse\<close> (\<open>None\<close> when it throws).
\<close>

record env =
  llm :: "message list \<Rightarrow> string + (string \<times> tool_call_request list)"
  toolRegistry :: registry
  systemPrompt :: "string option"
  stringify :: "json \<Rightarrow> string"
  jsonParse :: "string \<Rightarrow> json option"

fun isSystemMessage :: "message \<Rightarrow> bool" where
  "isSystemMessage (SystemMessage a c) = True"
| "isSystemMessage m = False"

text \<open>
  \<^verbatim>\<open>getMessageList\<close>. The objects it creates take their identities from \<open>fresh\<close> on:
  the system message \<open>fresh\<close>, the tool message of result \<open>i\<close> the identity
  \<open>fresh + 1 + i\<close>.
\<close>

definition getMessageList :: "env \<Rightarrow> nat \<Rightarrow> agent_state \<Rightarrow> error + message list" where
  "getMessageList e fresh st =
     (let hasSystemMessage = list_ex isSystemMessage (messages st);
          allMessages = (if \<not> hasSystemMessage \<and> truthy (systemPrompt e)
                         then [SystemMessage fresh (the (systemPrompt e))] else []);
          lastAIMessageWithTools = findLastAIMessageWithTools (messages st);
          newToolMessages = fst (createToolMessages (stringify e) (Suc fresh) (toolResults st)
                                   lastAIMessageWithTools);
          hasToolResults = (toolResults st \<noteq> []);
          hasPendingToolCalls = (toolCalls st \<noteq> [])
      in case processMessages (messages st) newToolMessages hasToolResults hasPendingToolCalls of
           Inl err \<Rightarrow> Inl err
         | Inr finalMessages \<Rightarrow>
             Inr (if \<not> hasSystemMessage \<and> allMessages \<noteq> []
                  then allMessages @ finalMessages else finalMessages))"

text \<open>\<^verbatim>\<open>getLLMWithTools\<close>: the validation before the model is bound to the tools. Both
  branches of a failed validation call \<^verbatim>\<open>logger.error\<close>.\<close>

definition getLLMWithTools :: "message list \<Rightarrow> agent_state \<Rightarrow> error + unit" where
  "getLLMWithTools msgs st =
     (let v = validateToolCalls msgs
      in if \<not> isValid v then
           (if \<not> (toolResults st \<noteq> [])
            then logger_error (CannotSendToLLM (missingToolCallIds v) (toolCalls st \<noteq> []))
            else logger_error (UnfinishedDespiteToolResults (missingToolCallIds v)
                                 (length (toolResults st)) (length (toolCalls st))))
         else Inr ())"

text \<open>\<^verbatim>\<open>toolCalls.map((tc) => ({name: tc.name, args: typeof tc.args === "string" ?
  JSON.parse(tc.args) : tc.args}))\<close>\<close>

fun toolCallsToExecute :: "env \<Rightarrow> tool_call_request list \<Rightarrow> error + tool_call list" where
  "toolCallsToExecute e [] = Inr []"
| "toolCallsToExecute e (tc # rest) =
     (case (case tc_args tc of
              JStr s \<Rightarrow> (case jsonParse e s of None \<Rightarrow> Inl (ArgsParseFailure s)
                         | Some v \<Rightarrow> Inr v)
            | v \<Rightarrow> Inr v) of
        Inl err \<Rightarrow> Inl err
      | Inr args \<Rightarrow>
          (case toolCallsToExecute e rest of
             Inl err \<Rightarrow> Inl err
           | Inr calls \<Rightarrow> Inr (\<lparr>call_name = tc_name tc, call_args = args\<rparr> # calls)))"

text \<open>\<^verbatim>\<open>createToolMessagesFromResults\<close> and \<^verbatim>\<open>handleFinalResponse\<close>: the tool results
  that are still in the state become tool messages in front of the final response,
  and the tool results are cleared. \<^verbatim>\<open>toolCalls\<close> is not part of the returned
  partial state.\<close>

definition createToolMessagesFromResults :: "env \<Rightarrow> nat \<Rightarrow> agent_state \<Rightarrow> message list" where
  "createToolMessagesFromResults e fresh st =
     (if toolResults st = [] then []
      else fst (createToolMessages (stringify e) fresh (toolResults st)
                  (findLastAIMessageWithTools (messages st))))"

definition handleFinalResponse :: "env \<Rightarrow> nat \<Rightarrow> message \<Rightarrow> agent_state \<Rightarrow> state_update" where
  "handleFinalResponse e fresh response st =
     (let newToolMessages = createToolMessagesFromResults e fresh st;
          messagesToReturn = (if newToolMessages \<noteq> [] then newToolMessages @ [response]
                              else [response])
      in \<lparr>upd_messages = Some messagesToReturn, upd_toolCalls = None,
          upd_toolResults = Some []\<rparr>)"

text \<open>
  \<^verbatim>\<open>Node.execute\<close> from the point where \<^verbatim>\<open>allMessages\<close> has been built: validation,
  the model call on \<^verbatim>\<open>allMessages\<close>, and the branch on the tool calls of the response.
  The response object has the identity \<open>fresh\<close>; tool messages created by
  \<^verbatim>\<open>handleFinalResponse\<close> start at \<open>fresh + 1\<close>.
\<close>

definition execute_on :: "env \<Rightarrow> nat \<Rightarrow> agent_state \<Rightarrow> message list \<Rightarrow> error + state_update" where
  "execute_on e fresh st allMessages =
     (case getLLMWithTools allMessages st of
        Inl err \<Rightarrow> Inl err
      | Inr llmWithTools \<Rightarrow>
          (case llm e allMessages of
             Inl failure \<Rightarrow> Inl (ModelFailure failure)
           | Inr (c, tcs) \<Rightarrow>
               (let response = AIMessage fresh c tcs
                in if tcs \<noteq> [] then
                     (case toolCallsToExecute e tcs of
                        Inl err \<Rightarrow> Inl err
                      | Inr calls \<Rightarrow>
                          (case executeTools (toolRegistry e) calls of
                             Inl err \<Rightarrow> Inl err
                           | Inr results \<Rightarrow>
                               Inr \<lparr>upd_messages = Some [response], upd_toolCalls = Some [],
                                    upd_toolResults = Some results\<rparr>))
                   else Inr (handleFinalResponse e (Suc fresh) response st))))"

definition execute :: "env \<Rightarrow> nat \<Rightarrow> agent_state \<Rightarrow> error + state_update" where
  "execute e fresh st =
     (case getMessageList e fresh st of
        Inl err \<Rightarrow> Inl err
      | Inr allMessages \<Rightarrow>
          execute_on e (fresh + 1 + length (toolResults st)) st allMessages)"

text \<open>The number of object identities one call of \<^verbatim>\<open>execute\<close> may use.\<close>

definition allocated :: "agent_state \<Rightarrow> nat" where
  "allocated st = 2 + 2 * length (toolResults st)"

section \<open>The workflow\<close>

text \<open>
  The graph of \<^verbatim>\<open>buildWorkflow\<close>: one node \<^verbatim>\<open>agent\<close>, entered from \<^verbatim>\<open>START\<close>, and a
  conditional edge from it whose routing function answers \<^verbatim>\<open>"continue"\<close> (mapped to
  \<^verbatim>\<open>agent\<close>) or \<^verbatim>\<open>"end"\<close> (mapped to \<^verbatim>\<open>END\<close>).
\<close>

definition route :: "agent_state \<Rightarrow> string" where
  "route st = (if toolResults st \<noteq> [] then ''continue'' else ''end'')"

datatype target = AgentNode | END

definition edge :: "string \<Rightarrow> target" where
  "edge label = (if label = ''continue'' then AgentNode else END)"

text \<open>
  Running the compiled graph. One step runs the node on the state, merges the partial
  state it returns through the reducers and follows the conditional edge. The graph
  library bounds the number of steps of a run (its recursion limit); \<open>n\<close> is that
  bound, and a run that reaches it ends as \<open>LimitReached\<close>. A run yields the partial
  state of every step together with the state after it (what \<^verbatim>\<open>stream\<close> delivers) and
  how it ended (\<^verbatim>\<open>invoke\<close> returns the state of \<open>Finished\<close>, and throws otherwise).
\<close>

datatype outcome = Finished agent_state | Failed error | LimitReached

fun run :: "nat \<Rightarrow> env \<Rightarrow> nat \<Rightarrow> agent_state \<Rightarrow> (state_update \<times> agent_state) list \<times> outcome" where
  "run 0 e fresh st = ([], LimitReached)"
| "run (Suc n) e fresh st =
     (case execute e fresh st of
        Inl err \<Rightarrow> ([], Failed err)
      | Inr u \<Rightarrow>
          (let st' = applyUpdate st u
           in case edge (route st') of
                AgentNode \<Rightarrow>
                  (let (steps, out) = run n e (fresh + allocated st) st'
                   in ((u, st') # steps, out))
              | END \<Rightarrow> ([(u, st')], Finished st')))"

definition invoke :: "nat \<Rightarrow> env \<Rightarrow> nat \<Rightarrow> agent_state \<Rightarrow> outcome" where
  "invoke n e fresh st = snd (run n e fresh st)"

definition stream :: "nat \<Rightarrow> env \<Rightarrow> nat \<Rightarrow> agent_state \<Rightarrow> state_update list \<times> outcome" where
  "stream n e fresh st = (let (steps, out) = run n e fresh st in (map fst steps, out))"

section \<open>ChatManager: one turn\<close>

text \<open>For an input that is neither empty nor an exit command, \<^verbatim>\<open>processUserInput\<close>
  builds the state of the new turn from the stored conversation state and the user's
  input, and invokes the workflow on it.\<close>

definition newTurnState :: "agent_state \<Rightarrow> nat \<Rightarrow> string \<Rightarrow> agent_state" where
  "newTurnState conversationState fresh userInput =
     \<lparr>messages = messages conversationState @ [HumanMessage fresh userInput],
      toolCalls = [], toolResults = []\<rparr>"

definition processUserInput_run ::
  "nat \<Rightarrow> env \<Rightarrow> nat \<Rightarrow> agent_state \<Rightarrow> string \<Rightarrow> (state_update \<times> agent_state) list \<times> outcome" where
  "processUserInput_run n e fresh conversationState userInput =
     run n e (Suc fresh) (newTurnState conversationState fresh userInput)"

section \<open>The streaming chat route\<close>

text \<open>
  \<^verbatim>\<open>extractAIResponse\<close> of the chat route walks the history from its end. It remembers
  the first assistant message it meets (\<^verbatim>\<open>lastAIMessage\<close>), returns the content of the
  first assistant message without tool calls whose content is not empty, and falls
  back to the content of \<^verbatim>\<open>lastAIMessage\<close> when the loop ends; \<open>None\<close> is \<^verbatim>\<open>null\<close>.
\<close>

fun extractAIResponse_scan :: "message list \<Rightarrow> message option \<Rightarrow> string option" where
  "extractAIResponse_scan [] lastAIMessage =
     (case lastAIMessage of
        Some m \<Rightarrow> (if content m \<noteq> [] then Some (content m) else None)
      | None \<Rightarrow> None)"
| "extractAIResponse_scan (AIMessage a c tcs # earlier) lastAIMessage =
     (let lastAIMessage' = (if lastAIMessage = None then Some (AIMessage a c tcs)
                            else lastAIMessage)
      in if tcs = [] \<and> c \<noteq> [] then Some c
         else extractAIResponse_scan earlier lastAIMessage')"
| "extractAIResponse_scan (msg # earlier) lastAIMessage =
     extractAIResponse_scan earlier lastAIMessage"

definition extractAIResponse :: "agent_state \<Rightarrow> string option" where
  "extractAIResponse st =
     (if messages st = [] then None else extractAIResponse_scan (rev (messages st)) None)"

text \<open>The events written to the response stream: a delta chunk, the final message with
  the full content, an error, and the terminal \<^verbatim>\<open>[DONE]\<close>.\<close>

datatype sse_event =
    DeltaEvent string
  | MessageEvent string
  | ErrorEvent
  | DoneEvent

text \<open>The route accumulates the partial states itself.\<close>

definition accumulate :: "agent_state \<Rightarrow> state_update \<Rightarrow> agent_state" where
  "accumulate acc partialState =
     \<lparr>messages = (case upd_messages partialState of Some ms \<Rightarrow> messages acc @ ms
                   | None \<Rightarrow> messages acc),
      toolCalls = (case upd_toolCalls partialState of Some v \<Rightarrow> v | None \<Rightarrow> toolCalls acc),
      toolResults = (case upd_toolResults partialState of Some v \<Rightarrow> v
                     | None \<Rightarrow> toolResults acc)\<rparr>"

text \<open>
  The loop \<^verbatim>\<open>for await (const stateUpdate of stateStream)\<close>, with the accumulated state,
  \<^verbatim>\<open>lastContent\<close> and the events sent so far. \<^verbatim>\<open>currentResponse.slice(lastContent.length)\<close>
  is \<open>drop (length lastContent) currentResponse\<close>.
\<close>

fun stream_loop ::
  "state_update list \<Rightarrow> agent_state \<Rightarrow> string \<Rightarrow> sse_event list \<Rightarrow> agent_state \<times> sse_event list" where
  "stream_loop [] accumulatedState lastContent events = (accumulatedState, events)"
| "stream_loop (partialState # later) accumulatedState lastContent events =
     (let accumulatedState' = accumulate accumulatedState partialState
      in case extractAIResponse accumulatedState' of
           None \<Rightarrow> stream_loop later accumulatedState' lastContent events
         | Some currentResponse \<Rightarrow>
             (if currentResponse \<noteq> [] \<and> currentResponse \<noteq> lastContent then
                (let delta = drop (length lastContent) currentResponse
                 in if delta \<noteq> []
                    then stream_loop later accumulatedState' currentResponse
                           (events @ [DeltaEvent delta])
                    else stream_loop later accumulatedState' lastContent events)
              else stream_loop later accumulatedState' lastContent events))"

text \<open>
  The body of the \<^verbatim>\<open>ReadableStream\<close> of \<^verbatim>\<open>POST\<close> for the state \<^verbatim>\<open>newState\<close>: the deltas
  of the steps, then the final message and \<^verbatim>\<open>[DONE]\<close>. When the state stream throws,
  the \<^verbatim>\<open>catch\<close> block sends an error event after the events of the steps that were
  delivered and closes the stream.
\<close>

definition POST_stream :: "nat \<Rightarrow> env \<Rightarrow> nat \<Rightarrow> agent_state \<Rightarrow> sse_event list" where
  "POST_stream n e fresh newState =
     (let (updates, out) = stream n e fresh newState;
          (accumulatedState, events) = stream_loop updates newState [] []
      in case out of
           Finished final \<Rightarrow>
             events
             @ (case extractAIResponse accumulatedState of
                  Some finalResponse \<Rightarrow>
                    (if finalResponse \<noteq> [] then [MessageEvent finalResponse] else [])
                | None \<Rightarrow> [])
             @ [DoneEvent]
         | Failed err \<Rightarrow> events @ [ErrorEvent]
         | LimitReached \<Rightarrow> events @ [ErrorEvent])"

section \<open>Notions used in the statements\<close>

text \<open>The first occurrence of every element of a list, in the order of the list.\<close>

fun firstOccurrences :: "'a list \<Rightarrow> 'a list" where
  "firstOccurrences [] = []"
| "firstOccurrences (x # xs) = x # filter (\<lambda>y. y \<noteq> x) (firstOccurrences xs)"

text \<open>The tool message that the map holds for a tool call,
  \<^verbatim>\<open>toolMessageMap.get(tc.id)!\<close>.\<close>

definition matching :: "(string \<rightharpoonup> message) \<Rightarrow> tool_call_request \<Rightarrow> message" where
  "matching tm tc = the (tm (the (tc_id tc)))"

text \<open>The tool messages that are pushed behind an assistant message \<open>m\<close> when the
  output so far is \<open>before\<close>: those of its tool calls, each once, in the order of the
  calls, without the ones that \<open>before\<close> contains.\<close>

definition placedAfter :: "(string \<rightharpoonup> message) \<Rightarrow> message list \<Rightarrow> message \<Rightarrow> message list" where
  "placedAfter tm before m =
     filter (\<lambda>t. t \<notin> set before)
       (firstOccurrences (map (matching tm) (filter (hasResponse tm) (tool_calls m))))"

text \<open>The non-empty ids of the tool calls of a message list, and the ids of its tool
  messages.\<close>

definition requestIds :: "message list \<Rightarrow> string set" where
  "requestIds msgs = {i. \<exists>m\<in>set msgs. \<exists>tc\<in>set (tool_calls m). tc_id tc = Some i \<and> i \<noteq> []}"

definition resultIds :: "message list \<Rightarrow> string set" where
  "resultIds msgs = {tool_call_id m | m. m \<in> set msgs \<and> isToolMessageWithId m}"

text \<open>Every entry of the map is a tool message of \<open>S\<close> stored under its own id.\<close>

definition map_ok :: "(string \<rightharpoonup> message) \<Rightarrow> message set \<Rightarrow> bool" where
  "map_ok tm S = (\<forall>k t. tm k = Some t \<longrightarrow> isToolMessageWithId t \<and> tool_call_id t = k \<and> t \<in> S)"

text \<open>The output list after one iteration of the second pass that does not throw.\<close>

definition stepOutput :: "(string \<rightharpoonup> message) \<Rightarrow> message list \<Rightarrow> message \<Rightarrow> message list" where
  "stepOutput tm acc msg =
     (if hasToolCalls msg then
        (if allToolCallsHaveResponses tm (tool_calls msg) then acc @ msg # placedAfter tm acc msg
         else acc)
      else if isToolMessageWithId msg \<and> msg \<in> set acc then acc
      else acc @ [msg])"

text \<open>Two invariants of the output list: every tool call in it has its tool message in
  it, and every assistant message with tool calls is directly followed by the tool
  messages placed behind it.\<close>

definition answered :: "(string \<rightharpoonup> message) \<Rightarrow> message list \<Rightarrow> bool" where
  "answered tm xs =
     (\<forall>m\<in>set xs. \<forall>tc\<in>set (tool_calls m). hasResponse tm tc \<and> matching tm tc \<in> set xs)"

definition placed_ok :: "(string \<rightharpoonup> message) \<Rightarrow> message list \<Rightarrow> bool" where
  "placed_ok tm xs =
     (\<forall>pre m post. xs = pre @ m # post \<and> hasToolCalls m \<longrightarrow>
        (\<exists>rest. post = placedAfter tm pre m @ rest))"

text \<open>
  A history in which the tool results stand where the reconciler puts them: every
  assistant message with tool calls has only calls with a non-empty id and is directly
  followed by one tool message per call, with the ids of the calls in the order of the
  calls. \<open>settledFrom pending msgs\<close> reads \<open>msgs\<close> while the ids \<open>pending\<close> are
  still expected at its front.
\<close>

fun settledFrom :: "string list \<Rightarrow> message list \<Rightarrow> bool" where
  "settledFrom pending [] = (pending = [])"
| "settledFrom pending (msg # rest) =
     (case pending of
        i # pending' \<Rightarrow> isToolMessageWithId msg \<and> tool_call_id msg = i \<and> settledFrom pending' rest
      | [] \<Rightarrow>
          (if hasToolCalls msg
           then list_all (\<lambda>tc. truthy (tc_id tc)) (tool_calls msg)
                \<and> settledFrom (map (\<lambda>tc. the (tc_id tc)) (tool_calls msg)) rest
           else settledFrom [] rest))"

text \<open>The ids of the tool messages of a list, in the order of the list.\<close>

definition toolMessageIds :: "message list \<Rightarrow> string list" where
  "toolMessageIds msgs = map tool_call_id (filter isToolMessageWithId msgs)"

text \<open>
  An example used to instantiate the theorems: a model that asks for one call of the
  tool \<^verbatim>\<open>search\<close> when the list it gets ends with a user message and answers in plain
  text otherwise, a registry with that tool, and the two steps of the run on the
  question of a user.
\<close>

definition searchCall :: tool_call_request where
  "searchCall = \<lparr>tc_id = Some ''call_1'', tc_name = ''search'', tc_args = JObj []\<rparr>"

definition searchEnv :: env where
  "searchEnv = \<lparr>llm = (\<lambda>ms. case last ms of
                      HumanMessage a c \<Rightarrow> Inr ([], [searchCall])
                    | m \<Rightarrow> Inr (''It is sunny.'', [])),
           toolRegistry = [''search'' \<mapsto> (\<lambda>args. Inr (JStr ''sunny''))],
           systemPrompt = None, stringify = (\<lambda>v. []), jsonParse = (\<lambda>s. None)\<rparr>"

definition afterToolStep :: agent_state where
  "afterToolStep =
     \<lparr>messages = [HumanMessage 0 ''weather?'', AIMessage 2 [] [searchCall]],
      toolCalls = [],
      toolResults = [\<lparr>result_name = ''search'', result = JStr ''sunny''\<rparr>]\<rparr>"

definition afterFinalStep :: agent_state where
  "afterFinalStep =
     \<lparr>messages = [HumanMessage 0 ''weather?'', AIMessage 2 [] [searchCall],
                  ToolMessage 6 ''sunny'' ''call_1'', AIMessage 5 ''It is sunny.'' []],
      toolCalls = [], toolResults = []\<rparr>"

definition searchSteps :: "(state_update \<times> agent_state) list" where
  "searchSteps =
     [(\<lparr>upd_messages = Some [AIMessage 2 [] [searchCall]], upd_toolCalls = Some [],
        upd_toolResults = Some [\<lparr>result_name = ''search'', result = JStr ''sunny''\<rparr>]\<rparr>,
       afterToolStep),
      (\<lparr>upd_messages = Some [ToolMessage 6 ''sunny'' ''call_1'', AIMessage 5 ''It is sunny.'' []],
        upd_toolCalls = None, upd_toolResults = Some []\<rparr>,
       afterFinalStep)]"

text \<open>The same example with a model whose tool call response also carries text.\<close>

definition chattyEnv :: env where
  "chattyEnv = searchEnv\<lparr>llm := (\<lambda>ms. case last ms of
                      HumanMessage a c \<Rightarrow> Inr (''Let me check.'', [searchCall])
                    | m \<Rightarrow> Inr (''It is sunny.'', []))\<rparr>"

text \<open>An assistant message that \<^verbatim>\<open>extractAIResponse\<close> returns from inside its loop: no
  tool calls and a content that is not empty.\<close>

fun hasAnswerText :: "message \<Rightarrow> bool" where
  "hasAnswerText (AIMessage a c tcs) = (tcs = [] \<and> c \<noteq> [])"
| "hasAnswerText m = False"

text \<open>The partial states of a run whose tool call response carries the text
  \<^verbatim>\<open>It is\<close> and whose final answer extends that text.\<close>

definition growingUpdates :: "state_update list" where
  "growingUpdates =
     [\<lparr>upd_messages = Some [AIMessage 2 ''It is'' [searchCall]], upd_toolCalls = Some [],
       upd_toolResults = Some [\<lparr>result_name = ''search'', result = JStr ''sunny''\<rparr>]\<rparr>,
      \<lparr>upd_messages = Some [ToolMessage 6 ''sunny'' ''call_1'', AIMessage 5 ''It is sunny.'' []],
       upd_toolCalls = None, upd_toolResults = Some []\<rparr>]"

section \<open>Properties of tool message creation\<close>

lemma findLast_scan_append:
  "findLast_scan (xs @ ys) =
     (case findLast_scan xs of Some m \<Rightarrow> Some m | None \<Rightarrow> findLast_scan ys)"
  by (induction xs) auto

lemma findLast_scan_None: "findLast_scan xs = None \<longleftrightarrow> (\<forall>m\<in>set xs. \<not> hasToolCalls m)"
  by (induction xs) auto

lemma findLast_most_recent:
  assumes "hasToolCalls m" and "\<forall>x\<in>set post. \<not> hasToolCalls x"
  shows "findLastAIMessageWithTools (pre @ m # post) = Some m"
proof -
  have "findLast_scan (rev post) = None"
    using assms(2) by (simp add: findLast_scan_None)
  then show ?thesis
    using assms(1) by (simp add: findLastAIMessageWithTools_def findLast_scan_append)
qed


lemma forEach_fst:
  "fst (createToolMessages_forEach sfy fresh tcs rs k) =
     [ToolMessage (fresh + (k + j)) (resultContent sfy (result (rs ! j))) (the (tc_id (tcs ! (k + j)))).
        j \<leftarrow> [0..<length rs], k + j < length tcs \<and> truthy (tc_id (tcs ! (k + j)))]"
proof (induction rs arbitrary: k)
  case Nil
  show ?case by simp
next
  case (Cons r rs)
  have upt: "[0..<length (r # rs)] = 0 # map Suc [0..<length rs]"
    by (simp add: upt_conv_Cons map_Suc_upt del: upt_Suc)
  show ?case
    unfolding upt
    using Cons.IH[of "Suc k"]
    by (auto simp: at_index_def Let_def split_beta comp_def split: option.splits cong: if_cong)
qed

lemma forEach_snd:
  "snd (createToolMessages_forEach sfy fresh tcs rs k) =
     [WarnNoToolCallId (k + j) (result_name (rs ! j)).
        j \<leftarrow> [0..<length rs], \<not> (k + j < length tcs \<and> truthy (tc_id (tcs ! (k + j))))]"
proof (induction rs arbitrary: k)
  case Nil
  show ?case by simp
next
  case (Cons r rs)
  have upt: "[0..<length (r # rs)] = 0 # map Suc [0..<length rs]"
    by (simp add: upt_conv_Cons map_Suc_upt del: upt_Suc)
  show ?case
    unfolding upt
    using Cons.IH[of "Suc k"]
    by (auto simp: at_index_def Let_def split_beta comp_def split: option.splits cong: if_cong)
qed

section \<open>Properties of the filtering pass\<close>

lemma map_ok_collect: "map_ok tm S \<Longrightarrow> map_ok (foldl collectToolMessage tm xs) (S \<union> set xs)"
proof (induction xs arbitrary: tm S)
  case Nil then show ?case by simp
next
  case (Cons x xs)
  have "map_ok (collectToolMessage tm x) (S \<union> {x})"
    using Cons.prems by (auto simp: map_ok_def collectToolMessage_def)
  from Cons.IH[OF this] show ?case by (simp add: Un_assoc)
qed

lemma map_ok_toolMessageMap: "map_ok (toolMessageMap H N) (set H \<union> set N)"
proof -
  have "map_ok (Map.empty::string \<rightharpoonup> message) {}" by (simp add: map_ok_def)
  from map_ok_collect[OF map_ok_collect[OF this, of H], of N]
  show ?thesis by (simp add: toolMessageMap_def)
qed

lemma dom_collect:
  "dom (foldl collectToolMessage tm xs) = dom tm \<union> resultIds xs"
proof (induction xs arbitrary: tm)
  case Nil then show ?case by (simp add: resultIds_def)
next
  case (Cons x xs)
  show ?case unfolding foldl_Cons Cons.IH
    by (auto simp: collectToolMessage_def resultIds_def)
qed

lemma dom_toolMessageMap: "dom (toolMessageMap H N) = resultIds H \<union> resultIds N"
  by (simp add: toolMessageMap_def dom_collect)

lemma filter_neq_notin:
  "x \<in> A \<Longrightarrow> filter (\<lambda>t. t \<noteq> x \<and> t \<notin> A) ys = filter (\<lambda>t. t \<notin> A) ys"
  by (induction ys) auto

lemma pushToolMessages_eq:
  "pushToolMessages tm tcs acc =
     acc @ filter (\<lambda>t. t \<notin> set acc)
             (firstOccurrences (map (matching tm) (filter (hasResponse tm) tcs)))"
proof (induction tcs arbitrary: acc)
  case Nil then show ?case by simp
next
  case (Cons tc tcs)
  show ?case
  proof (cases "hasResponse tm tc")
    case False then show ?thesis using Cons.IH by simp
  next
    case True
    show ?thesis
    proof (cases "matching tm tc \<in> set acc")
      case True
      with \<open>hasResponse tm tc\<close> show ?thesis
        using Cons.IH[of acc] by (simp add: matching_def Let_def filter_neq_notin)
    next
      case False
      have "filter (\<lambda>t. t \<notin> set (acc @ [matching tm tc])) ys
            = filter (\<lambda>t. t \<notin> set acc) (filter (\<lambda>y. y \<noteq> matching tm tc) ys)" for ys
        by (induction ys) auto
      with False \<open>hasResponse tm tc\<close> show ?thesis
        using Cons.IH[of "acc @ [matching tm tc]"] by (simp add: matching_def Let_def)
    qed
  qed
qed

lemma set_firstOccurrences: "set (firstOccurrences xs) = set xs"
  by (induction xs) auto

lemma matching_is_tool_message:
  "map_ok tm S \<Longrightarrow> hasResponse tm tc \<Longrightarrow>
     isToolMessageWithId (matching tm tc) \<and> tool_call_id (matching tm tc) = the (tc_id tc)
     \<and> matching tm tc \<in> S"
  by (auto simp: map_ok_def hasResponse_def matching_def)

lemma toolMessage_not_hasToolCalls: "isToolMessageWithId t \<Longrightarrow> \<not> hasToolCalls t"
  by (cases t) simp_all

lemma placedAfter_tool_messages:
  "map_ok tm S \<Longrightarrow> t \<in> set (placedAfter tm before m) \<Longrightarrow> isToolMessageWithId t \<and> t \<in> S"
  by (auto simp: placedAfter_def set_firstOccurrences dest: matching_is_tool_message)

lemma push_after_assistant:
  assumes "map_ok tm S" and "hasToolCalls msg"
  shows "pushToolMessages tm (tool_calls msg) (acc @ [msg]) = acc @ msg # placedAfter tm acc msg"
proof -
  have "t \<noteq> msg" if "t \<in> set (firstOccurrences (map (matching tm) (filter (hasResponse tm) (tool_calls msg))))" for t
    using that assms matching_is_tool_message[OF assms(1)] toolMessage_not_hasToolCalls
    by (auto simp: set_firstOccurrences)
  then have "filter (\<lambda>t. t \<notin> set (acc @ [msg])) (firstOccurrences (map (matching tm) (filter (hasResponse tm) (tool_calls msg))))
           = filter (\<lambda>t. t \<notin> set acc) (firstOccurrences (map (matching tm) (filter (hasResponse tm) (tool_calls msg))))"
    by (intro filter_cong) auto
  then show ?thesis
    by (simp add: pushToolMessages_eq placedAfter_def)
qed

lemma loop_step:
  assumes "map_ok tm S"
  shows "processMessages_loop tm h p (msg # rest) acc =
     (if hasToolCalls msg \<and> \<not> allToolCallsHaveResponses tm (tool_calls msg) \<and> \<not> (h \<or> p)
      then Inl (UnfinishedToolCalls (missingIds tm (tool_calls msg)))
      else processMessages_loop tm h p rest (stepOutput tm acc msg))"
  using push_after_assistant[OF assms]
  by (simp add: stepOutput_def logger_error_def)

lemma loop_induct_rule:
  assumes ok: "map_ok tm S"
    and res: "processMessages_loop tm h p ms acc = Inr out"
    and base: "Q acc"
    and step: "\<And>acc msg. Q acc \<Longrightarrow> msg \<in> set ms \<Longrightarrow> Q (stepOutput tm acc msg)"
  shows "Q out"
  using res base step
proof (induction ms arbitrary: acc)
  case Nil then show ?case by simp
next
  case (Cons msg rest)
  from Cons.prems(1) have r: "processMessages_loop tm h p rest (stepOutput tm acc msg) = Inr out"
    unfolding loop_step[OF ok] by (simp split: if_splits)
  show ?case
    by (rule Cons.IH[OF r]) (auto intro: Cons.prems)
qed

lemma stepOutput_prefix: "\<exists>ys. stepOutput tm acc msg = acc @ ys"
  by (simp add: stepOutput_def)

lemma loop_prefix:
  assumes "map_ok tm S" and "processMessages_loop tm h p ms acc = Inr out"
  shows "\<exists>ys. out = acc @ ys"
proof (rule loop_induct_rule[OF assms, where Q = "\<lambda>xs. \<exists>ys. xs = acc @ ys"])
  show "\<exists>ys. acc = acc @ ys" by simp
next
  fix acc' msg assume "\<exists>ys. acc' = acc @ ys"
  then obtain ys where "acc' = acc @ ys" ..
  moreover obtain zs where "stepOutput tm acc' msg = acc' @ zs"
    using stepOutput_prefix by blast
  ultimately show "\<exists>ys. stepOutput tm acc' msg = acc @ ys" by simp
qed

lemma loop_contains:
  assumes ok: "map_ok tm S"
    and res: "processMessages_loop tm h p ms acc = Inr out"
    and mem: "msg \<in> set ms"
    and stays: "\<And>acc. msg \<in> set (stepOutput tm acc msg)"
  shows "msg \<in> set out"
  using res mem
proof (induction ms arbitrary: acc)
  case Nil then show ?case by simp
next
  case (Cons x rest)
  from Cons.prems(1) have r: "processMessages_loop tm h p rest (stepOutput tm acc x) = Inr out"
    unfolding loop_step[OF ok] by (simp split: if_splits)
  show ?case
  proof (cases "msg = x")
    case True
    from loop_prefix[OF ok r] obtain ys where "out = stepOutput tm acc x @ ys" ..
    with stays[of acc] True show ?thesis by simp
  next
    case False
    with Cons.prems(2) have "msg \<in> set rest" by simp
    from Cons.IH[OF r this] show ?thesis .
  qed
qed

lemma tool_messages_kept:
  assumes "map_ok tm S" and "processMessages_loop tm h p ms acc = Inr out"
    and "msg \<in> set ms" and "isToolMessageWithId msg"
  shows "msg \<in> set out"
  using assms(4)
  by (intro loop_contains[OF assms(1,2,3)])
     (auto simp: stepOutput_def toolMessage_not_hasToolCalls)

lemma complete_assistant_kept:
  assumes "map_ok tm S" and "processMessages_loop tm h p ms acc = Inr out"
    and "msg \<in> set ms" and "hasToolCalls msg" and "allToolCallsHaveResponses tm (tool_calls msg)"
  shows "msg \<in> set out"
  using assms(4,5)
  by (intro loop_contains[OF assms(1,2,3)]) (auto simp: stepOutput_def)

lemma set_placedAfter:
  "set (placedAfter tm before m) =
     matching tm ` {tc \<in> set (tool_calls m). hasResponse tm tc} - set before"
  by (auto simp: placedAfter_def set_firstOccurrences)

lemma answered_step:
  assumes ok: "map_ok tm S" and a: "answered tm acc"
  shows "answered tm (stepOutput tm acc msg)"
proof -
  have plain: "answered tm (acc @ [msg])" if "tool_calls msg = []"
    using a that by (auto simp: answered_def)
  have tool: "tool_calls msg = []" if "\<not> hasToolCalls msg"
    using that by (cases msg) simp_all
  have placed: "tool_calls t = []" if "t \<in> set (placedAfter tm acc msg)" for t
    using placedAfter_tool_messages[OF ok that] by (cases t) simp_all
  have incl: "answered tm (acc @ msg # placedAfter tm acc msg)"
    if all: "allToolCallsHaveResponses tm (tool_calls msg)"
  proof -
    have own: "hasResponse tm tc \<and> matching tm tc \<in> set (acc @ msg # placedAfter tm acc msg)"
      if "tc \<in> set (tool_calls msg)" for tc
      using all that by (auto simp: allToolCallsHaveResponses_def list_all_iff set_placedAfter)
    show ?thesis
      unfolding answered_def
    proof (intro ballI)
      fix m tc
      assume m: "m \<in> set (acc @ msg # placedAfter tm acc msg)" and tc: "tc \<in> set (tool_calls m)"
      from m consider "m \<in> set acc" | "m = msg" | "m \<in> set (placedAfter tm acc msg)" by auto
      then show "hasResponse tm tc \<and> matching tm tc \<in> set (acc @ msg # placedAfter tm acc msg)"
      proof cases
        case 1 with a tc show ?thesis by (auto simp: answered_def)
      next
        case 2 with own tc show ?thesis by simp
      next
        case 3 with placed tc show ?thesis by simp
      qed
    qed
  qed
  show ?thesis
    using a plain tool incl by (auto simp: stepOutput_def)
qed

lemma loop_answered:
  assumes "map_ok tm S" and "processMessages_loop tm h p ms acc = Inr out" and "answered tm acc"
  shows "answered tm out"
  by (rule loop_induct_rule[OF assms(1,2), where Q = "answered tm"])
     (auto intro: assms(3) answered_step[OF assms(1)])

lemma loop_origin:
  assumes ok: "map_ok tm S" and res: "processMessages_loop tm h p ms [] = Inr out"
  shows "\<forall>m\<in>set out. hasToolCalls m \<longrightarrow> m \<in> set ms \<and> allToolCallsHaveResponses tm (tool_calls m)"
proof (rule loop_induct_rule[OF ok res,
    where Q = "\<lambda>xs. \<forall>m\<in>set xs. hasToolCalls m \<longrightarrow> m \<in> set ms \<and> allToolCallsHaveResponses tm (tool_calls m)"])
  show "\<forall>m\<in>set []. hasToolCalls m \<longrightarrow> m \<in> set ms \<and> allToolCallsHaveResponses tm (tool_calls m)"
    by simp
next
  fix acc msg
  assume q: "\<forall>m\<in>set acc. hasToolCalls m \<longrightarrow> m \<in> set ms \<and> allToolCallsHaveResponses tm (tool_calls m)"
    and mem: "msg \<in> set ms"
  have placed: "\<not> hasToolCalls t" if "t \<in> set (placedAfter tm acc msg)" for t
    using placedAfter_tool_messages[OF ok that] toolMessage_not_hasToolCalls by blast
  show "\<forall>m\<in>set (stepOutput tm acc msg). hasToolCalls m \<longrightarrow> m \<in> set ms \<and> allToolCallsHaveResponses tm (tool_calls m)"
    using q mem placed by (auto simp: stepOutput_def)
qed

lemma decomp_append:
  assumes "xs @ ys = pre @ m # post" and "hasToolCalls m" and "\<forall>y\<in>set ys. \<not> hasToolCalls y"
  shows "\<exists>post0. xs = pre @ m # post0 \<and> post = post0 @ ys"
proof -
  from assms(1) obtain us where
    "(xs = pre @ us \<and> us @ ys = m # post) \<or> (xs @ us = pre \<and> ys = us @ m # post)"
    unfolding append_eq_append_conv2 by blast
  then show ?thesis
  proof
    assume h: "xs = pre @ us \<and> us @ ys = m # post"
    show ?thesis
    proof (cases us)
      case Nil
      with h have "m \<in> set ys" by (cases ys) auto
      with assms(2,3) show ?thesis by blast
    next
      case (Cons u us')
      with h show ?thesis by auto
    qed
  next
    assume "xs @ us = pre \<and> ys = us @ m # post"
    then have "m \<in> set ys" by auto
    with assms(2,3) show ?thesis by blast
  qed
qed

lemma placed_ok_append:
  assumes "placed_ok tm xs" and "\<forall>y\<in>set ys. \<not> hasToolCalls y"
  shows "placed_ok tm (xs @ ys)"
  unfolding placed_ok_def
proof (intro allI impI, elim conjE)
  fix pre m post
  assume eq: "xs @ ys = pre @ m # post" and m: "hasToolCalls m"
  from decomp_append[OF eq m assms(2)] obtain post0 where
    p: "xs = pre @ m # post0" "post = post0 @ ys" by blast
  from assms(1) p(1) m obtain rest where "post0 = placedAfter tm pre m @ rest"
    unfolding placed_ok_def by blast
  with p(2) show "\<exists>rest. post = placedAfter tm pre m @ rest" by simp
qed

lemma placed_ok_push:
  assumes ok: "map_ok tm S" and p: "placed_ok tm xs" and m0: "hasToolCalls m0"
  shows "placed_ok tm (xs @ m0 # placedAfter tm xs m0)"
  unfolding placed_ok_def
proof (intro allI impI, elim conjE)
  fix pre m post
  assume eq: "xs @ m0 # placedAfter tm xs m0 = pre @ m # post" and m: "hasToolCalls m"
  have tools: "\<forall>y\<in>set (placedAfter tm xs m0). \<not> hasToolCalls y"
    using placedAfter_tool_messages[OF ok] toolMessage_not_hasToolCalls by blast
  from eq have "(xs @ [m0]) @ placedAfter tm xs m0 = pre @ m # post" by simp
  from decomp_append[OF this m tools] obtain post0 where
    d: "xs @ [m0] = pre @ m # post0" "post = post0 @ placedAfter tm xs m0" by blast
  show "\<exists>rest. post = placedAfter tm pre m @ rest"
  proof (cases post0 rule: rev_cases)
    case Nil
    with d(1) have "xs = pre" "m0 = m" by simp_all
    with d(2) Nil show ?thesis by simp
  next
    case (snoc post1 z)
    with d(1) have "xs @ [m0] = (pre @ m # post1) @ [z]" by simp
    then have "xs = pre @ m # post1" by (simp only: append1_eq_conv)
    with p m obtain rest where "post1 = placedAfter tm pre m @ rest"
      unfolding placed_ok_def by blast
    with d(2) snoc show ?thesis by simp
  qed
qed

lemma placed_ok_step:
  assumes ok: "map_ok tm S" and p: "placed_ok tm acc"
  shows "placed_ok tm (stepOutput tm acc msg)"
proof -
  have plain: "placed_ok tm (acc @ [msg])" if "\<not> hasToolCalls msg"
    using placed_ok_append[OF p, of "[msg]"] that by simp
  show ?thesis
    using p plain placed_ok_push[OF ok p] by (auto simp: stepOutput_def)
qed

lemma loop_placed:
  assumes "map_ok tm S" and "processMessages_loop tm h p ms [] = Inr out"
  shows "placed_ok tm out"
proof (rule loop_induct_rule[OF assms, where Q = "placed_ok tm"])
  show "placed_ok tm []" by (simp add: placed_ok_def)
next
  fix acc msg assume "placed_ok tm acc"
  then show "placed_ok tm (stepOutput tm acc msg)" by (rule placed_ok_step[OF assms(1)])
qed

lemma hasResponse_truthy: "hasResponse tm tc \<Longrightarrow> truthy (tc_id tc)"
  by (simp add: hasResponse_def)

lemma hasResponse_dom: "hasResponse tm tc \<Longrightarrow> the (tc_id tc) \<in> dom tm"
  by (auto simp: hasResponse_def)

section \<open>Properties of the tool executor\<close>

lemma executeTools_loop_names:
  "executeTools_loop reg calls acc = Inr rs \<Longrightarrow>
     map result_name rs = map result_name acc @ map call_name calls"
  by (induction calls arbitrary: acc)
     (auto simp: logger_error_def split: sum.splits)

lemma executeTools_names:
  "executeTools reg calls = Inr rs \<Longrightarrow> map result_name rs = map call_name calls"
  unfolding executeTools_def by (drule executeTools_loop_names) simp

lemma executeTools_length:
  "executeTools reg calls = Inr rs \<Longrightarrow> length rs = length calls"
  by (drule executeTools_names) (metis length_map)

lemma executeTools_loop_all_succeed:
  "executeTools_loop reg calls acc = Inr rs \<Longrightarrow>
     \<forall>c\<in>set calls. \<exists>t r. reg (call_name c) = Some t \<and> t (call_args c) = Inr r"
  by (induction calls arbitrary: acc)
     (auto simp: logger_error_def executeTools_try_def split: sum.splits option.splits)

lemma executeTools_all_succeed:
  "executeTools reg calls = Inr rs \<Longrightarrow>
     \<forall>c\<in>set calls. \<exists>t r. reg (call_name c) = Some t \<and> t (call_args c) = Inr r"
  unfolding executeTools_def by (rule executeTools_loop_all_succeed)

section \<open>The filtering pass on a settled history\<close>

lemma settledFrom_take:
  "settledFrom pending xs \<Longrightarrow>
     length pending \<le> length xs \<and> map tool_call_id (take (length pending) xs) = pending
     \<and> (\<forall>t\<in>set (take (length pending) xs). isToolMessageWithId t)"
proof (induction xs arbitrary: pending)
  case Nil then show ?case by simp
next
  case (Cons x xs)
  show ?case
  proof (cases pending)
    case Nil then show ?thesis by simp
  next
    case (Cons i pending')
    with Cons.prems have "settledFrom pending' xs" "isToolMessageWithId x" "tool_call_id x = i"
      by simp_all
    with Cons.IH[of pending'] Cons show ?thesis by simp
  qed
qed

lemma collectToolMessage_apply:
  "collectToolMessage m x k =
     (if isToolMessageWithId x \<and> tool_call_id x = k then Some x else m k)"
  by (simp add: collectToolMessage_def)

lemma collect_last_wins:
  assumes "distinct (toolMessageIds xs)" and "t \<in> set xs" and "isToolMessageWithId t"
  shows "foldl collectToolMessage m xs (tool_call_id t) = Some t"
  using assms
proof (induction xs arbitrary: m rule: rev_induct)
  case Nil then show ?case by simp
next
  case (snoc x xs)
  define f where "f = foldl collectToolMessage m xs"
  have last: "foldl collectToolMessage m (xs @ [x]) (tool_call_id t)
               = (if isToolMessageWithId x \<and> tool_call_id x = tool_call_id t then Some x
                  else f (tool_call_id t))"
    unfolding foldl_append foldl_Cons foldl_Nil f_def[symmetric]
    by (rule collectToolMessage_apply)
  show ?case
  proof (cases "isToolMessageWithId x \<and> tool_call_id x = tool_call_id t")
    case True
    have "x = t"
    proof (rule ccontr)
      assume "x \<noteq> t"
      with snoc.prems(2) have "t \<in> set xs" by simp
      with snoc.prems(3) have "tool_call_id t \<in> set (toolMessageIds xs)"
        by (auto simp: toolMessageIds_def)
      with snoc.prems(1) True show False by (simp add: toolMessageIds_def)
    qed
    with True show ?thesis unfolding last by simp
  next
    case False
    with snoc.prems(2,3) have "t \<in> set xs" by auto
    moreover from snoc.prems(1) have "distinct (toolMessageIds xs)"
      by (simp add: toolMessageIds_def)
    ultimately have "f (tool_call_id t) = Some t"
      unfolding f_def using snoc.IH snoc.prems(3) by blast
    with False show ?thesis unfolding last by auto
  qed
qed

lemma toolMessageMap_own:
  assumes "distinct (toolMessageIds H)" and "t \<in> set H" and "isToolMessageWithId t"
  shows "toolMessageMap H [] (tool_call_id t) = Some t"
  using collect_last_wins[OF assms] by (simp add: toolMessageMap_def)


lemma firstOccurrences_distinct: "distinct xs \<Longrightarrow> firstOccurrences xs = xs"
proof (induction xs)
  case Nil then show ?case by simp
next
  case (Cons x xs)
  then have "filter (\<lambda>y. y \<noteq> x) xs = xs" by (simp add: filter_id_conv) blast
  with Cons show ?case by simp
qed

lemma toolMessageIds_append: "toolMessageIds (xs @ ys) = toolMessageIds xs @ toolMessageIds ys"
  by (simp add: toolMessageIds_def)

lemma tool_message_not_earlier:
  assumes "distinct (toolMessageIds (xs @ ys))" and "t \<in> set ys" and "isToolMessageWithId t"
  shows "t \<notin> set xs"
proof
  assume "t \<in> set xs"
  with assms(3) have "tool_call_id t \<in> set (toolMessageIds xs)"
    by (auto simp: toolMessageIds_def)
  moreover from assms(2,3) have "tool_call_id t \<in> set (toolMessageIds ys)"
    by (auto simp: toolMessageIds_def)
  ultimately show False using assms(1) by (auto simp: toolMessageIds_append)
qed

lemma distinct_take_tool_messages:
  assumes "distinct (toolMessageIds ys)" and "\<forall>t\<in>set (take n ys). isToolMessageWithId t"
  shows "distinct (take n ys)"
proof -
  have "ys = take n ys @ drop n ys" by simp
  then have "toolMessageIds ys = toolMessageIds (take n ys) @ toolMessageIds (drop n ys)"
    by (metis toolMessageIds_append)
  with assms(1) have "distinct (toolMessageIds (take n ys))" by simp
  moreover from assms(2) have "filter isToolMessageWithId (take n ys) = take n ys"
    by (simp add: filter_id_conv)
  ultimately have "distinct (map tool_call_id (take n ys))"
    by (simp add: toolMessageIds_def)
  then show ?thesis by (simp add: distinct_map)
qed

lemma settled_assistant_step:
  assumes ok: "map_ok tm S"
    and own: "\<forall>t\<in>set (acc0 @ msg # rest). isToolMessageWithId t \<longrightarrow> tm (tool_call_id t) = Some t"
    and d: "distinct (toolMessageIds (acc0 @ msg # rest))"
    and calls: "hasToolCalls msg"
    and ids: "list_all (\<lambda>tc. truthy (tc_id tc)) (tool_calls msg)"
    and s: "settledFrom (map (\<lambda>tc. the (tc_id tc)) (tool_calls msg)) rest"
  shows "allToolCallsHaveResponses tm (tool_calls msg)"
    and "placedAfter tm acc0 msg = take (length (tool_calls msg)) rest"
proof -
  let ?tcs = "tool_calls msg"
  let ?n = "length ?tcs"
  let ?ts = "take ?n rest"
  from settledFrom_take[OF s] have
    len: "?n \<le> length rest" and
    idmap: "map tool_call_id ?ts = map (\<lambda>tc. the (tc_id tc)) ?tcs" and
    tools: "\<forall>t\<in>set ?ts. isToolMessageWithId t"
    by simp_all
  have sub: "set ?ts \<subseteq> set rest" by (rule set_take_subset)
  have own_ts: "tm (tool_call_id t) = Some t" if "t \<in> set ?ts" for t
    using own tools sub that by auto
  have "map (\<lambda>t. the (tm (tool_call_id t))) ?ts = ?ts"
    by (rule map_idI) (simp add: own_ts)
  moreover have "map (\<lambda>t. the (tm (tool_call_id t))) ?ts = map (\<lambda>i. the (tm i)) (map tool_call_id ?ts)"
    by (simp add: comp_def)
  moreover have "map (matching tm) ?tcs = map (\<lambda>i. the (tm i)) (map (\<lambda>tc. the (tc_id tc)) ?tcs)"
    by (simp add: matching_def[abs_def] comp_def)
  ultimately have m: "map (matching tm) ?tcs = ?ts"
    unfolding idmap by simp
  have resp: "hasResponse tm tc" if "tc \<in> set ?tcs" for tc
  proof -
    from that have "the (tc_id tc) \<in> set (map tool_call_id ?ts)"
      unfolding idmap by simp
    then obtain t where "t \<in> set ?ts" "tool_call_id t = the (tc_id tc)" by auto
    with own_ts[of t] have "tm (the (tc_id tc)) \<noteq> None" by auto
    moreover from ids that have "truthy (tc_id tc)" by (simp add: list_all_iff)
    ultimately show ?thesis by (simp add: hasResponse_def)
  qed
  then show "allToolCallsHaveResponses tm ?tcs"
    by (simp add: allToolCallsHaveResponses_def list_all_iff)
  from resp have f: "filter (hasResponse tm) ?tcs = ?tcs" by (simp add: filter_id_conv)
  from d have "distinct (toolMessageIds rest)"
    by (simp add: toolMessageIds_def split: if_splits)
  from distinct_take_tool_messages[OF this tools] have dist: "distinct ?ts" .
  have "t \<notin> set acc0" if "t \<in> set ?ts" for t
  proof -
    from that sub have "t \<in> set (msg # rest)" by auto
    moreover from that tools have "isToolMessageWithId t" by blast
    ultimately show ?thesis using tool_message_not_earlier[OF d] by blast
  qed
  then have "filter (\<lambda>t. t \<notin> set acc0) ?ts = ?ts" by (simp add: filter_id_conv)
  then show "placedAfter tm acc0 msg = ?ts"
    by (simp add: placedAfter_def f m firstOccurrences_distinct[OF dist])
qed

lemma settled_loop:
  assumes ok: "map_ok tm S"
    and own: "\<forall>t\<in>set (acc0 @ suffix). isToolMessageWithId t \<longrightarrow> tm (tool_call_id t) = Some t"
    and d: "distinct (toolMessageIds (acc0 @ suffix))"
    and s: "settledFrom pending suffix"
  shows "processMessages_loop tm h p suffix (acc0 @ take (length pending) suffix)
           = Inr (acc0 @ suffix)"
  using own d s
proof (induction suffix arbitrary: pending acc0)
  case Nil
  then show ?case by simp
next
  case (Cons msg rest)
  note own = Cons.prems(1) and d = Cons.prems(2) and s = Cons.prems(3)
  have own': "\<forall>t\<in>set ((acc0 @ [msg]) @ rest). isToolMessageWithId t \<longrightarrow> tm (tool_call_id t) = Some t"
    using own by simp
  have d': "distinct (toolMessageIds ((acc0 @ [msg]) @ rest))"
    using d by simp
  show ?case
  proof (cases pending)
    case (Cons i pending')
    with s have tool: "isToolMessageWithId msg" and s': "settledFrom pending' rest" by simp_all
    have step: "stepOutput tm (acc0 @ msg # take (length pending') rest) msg
                  = (acc0 @ [msg]) @ take (length pending') rest"
      using tool by (simp add: stepOutput_def toolMessage_not_hasToolCalls)
    show ?thesis
      unfolding loop_step[OF ok]
      using Cons.IH[OF own' d' s'] tool Cons step
      by (simp add: toolMessage_not_hasToolCalls)
  next
    case Nil
    show ?thesis
    proof (cases "hasToolCalls msg")
      case True
      with s Nil have ids: "list_all (\<lambda>tc. truthy (tc_id tc)) (tool_calls msg)"
        and s': "settledFrom (map (\<lambda>tc. the (tc_id tc)) (tool_calls msg)) rest"
        by simp_all
      note a = settled_assistant_step[OF ok own d True ids s']
      have step: "stepOutput tm acc0 msg
                    = (acc0 @ [msg]) @ take (length (map (\<lambda>tc. the (tc_id tc)) (tool_calls msg))) rest"
        using True a by (simp add: stepOutput_def)
      show ?thesis
        unfolding loop_step[OF ok]
        using Cons.IH[OF own' d' s'] True a(1) Nil step by simp
    next
      case False
      with s Nil have s': "settledFrom [] rest" by simp
      have "msg \<notin> set acc0" if "isToolMessageWithId msg"
        using tool_message_not_earlier[OF d, of msg] that by simp
      with False have step: "stepOutput tm acc0 msg = (acc0 @ [msg]) @ take (length ([]::string list)) rest"
        by (auto simp: stepOutput_def)
      show ?thesis
        unfolding loop_step[OF ok]
        using Cons.IH[OF own' d' s'] False Nil step by simp
    qed
  qed
qed

section \<open>Properties of the validation\<close>

lemma set_set_add: "set (set_add s x) = insert x (set s)"
  by (auto simp: set_add_def)

lemma set_addToolCallIds:
  "set (foldl addToolCallId s tcs) = set s \<union> {i. \<exists>tc\<in>set tcs. tc_id tc = Some i \<and> i \<noteq> []}"
proof (induction tcs arbitrary: s)
  case Nil then show ?case by simp
next
  case (Cons tc tcs)
  have "set (addToolCallId s tc) = set s \<union> {i. tc_id tc = Some i \<and> i \<noteq> []}"
    by (cases "tc_id tc") (auto simp: addToolCallId_def set_set_add)
  then show ?case unfolding foldl_Cons Cons.IH by auto
qed

lemma validate_scan_sets:
  "validate_scan msgs cs ts = (cs', ts') \<Longrightarrow>
     set cs' = set cs \<union> requestIds msgs \<and> set ts' = set ts \<union> resultIds msgs"
proof (induction msgs arbitrary: cs ts)
  case Nil then show ?case by (simp add: requestIds_def resultIds_def)
next
  case (Cons m msgs)
  from Cons.prems Cons.IH[of "foldl addToolCallId cs (tool_calls m)"
      "if isToolMessageWithId m then set_add ts (tool_call_id m) else ts"]
  show ?case
    by (auto simp: set_addToolCallIds set_set_add requestIds_def resultIds_def split: if_splits)
qed

lemma validateToolCalls_missing:
  "set (missingToolCallIds (validateToolCalls msgs)) = requestIds msgs - resultIds msgs"
proof -
  obtain cs ts where v: "validate_scan msgs [] [] = (cs, ts)" by (cases "validate_scan msgs [] []")
  from validate_scan_sets[OF v] show ?thesis
    by (auto simp: validateToolCalls_def v Let_def)
qed

lemma validateToolCalls_isValid:
  "isValid (validateToolCalls msgs) \<longleftrightarrow> missingToolCallIds (validateToolCalls msgs) = []"
  by (simp add: validateToolCalls_def split_beta Let_def)

lemma validateToolCalls_valid_iff:
  "isValid (validateToolCalls msgs) \<longleftrightarrow> requestIds msgs \<subseteq> resultIds msgs"
proof -
  have "missingToolCallIds (validateToolCalls msgs) = [] \<longleftrightarrow>
        set (missingToolCallIds (validateToolCalls msgs)) = {}" by simp
  then show ?thesis
    unfolding validateToolCalls_isValid validateToolCalls_missing by auto
qed

section \<open>Properties of the workflow\<close>

lemma execute_on_toolCalls:
  "execute_on e fresh st msgs = Inr u \<Longrightarrow> upd_toolCalls u = Some [] \<or> upd_toolCalls u = None"
  by (auto simp: execute_on_def handleFinalResponse_def Let_def
           split: sum.splits prod.splits if_splits)

lemma execute_toolCalls:
  "execute e fresh st = Inr u \<Longrightarrow> upd_toolCalls u = Some [] \<or> upd_toolCalls u = None"
  by (auto simp: execute_def dest: execute_on_toolCalls split: sum.splits)

lemma applyUpdate_toolCalls:
  "toolCalls st = [] \<Longrightarrow> upd_toolCalls u = Some [] \<or> upd_toolCalls u = None \<Longrightarrow>
     toolCalls (applyUpdate st u) = []"
  by (auto simp: applyUpdate_def replaceReducer_def)

lemma edge_route: "edge (route st) = (if toolResults st \<noteq> [] then AgentNode else END)"
  by (simp add: edge_def route_def)

lemma run_step:
  "execute e fresh st = Inr u \<Longrightarrow>
     run (Suc n) e fresh st =
       (if toolResults (applyUpdate st u) \<noteq> []
        then (let (steps, out) = run n e (fresh + allocated st) (applyUpdate st u)
              in ((u, applyUpdate st u) # steps, out))
        else ([(u, applyUpdate st u)], Finished (applyUpdate st u)))"
  by (simp add: edge_route Let_def)

lemma run_failed: "execute e fresh st = Inl err \<Longrightarrow> run (Suc n) e fresh st = ([], Failed err)"
  by simp

lemma run_stops_iff:
  "run n e fresh st = (steps, out) \<Longrightarrow> i < length steps \<Longrightarrow>
     (toolResults (snd (steps ! i)) = [] \<longleftrightarrow>
        Suc i = length steps \<and> out = Finished (snd (steps ! i)))"
proof (induction n arbitrary: fresh st steps out i)
  case 0 then show ?case by simp
next
  case (Suc n)
  show ?case
  proof (cases "execute e fresh st")
    case (Inl err)
    with Suc.prems show ?thesis by simp
  next
    case (Inr u)
    let ?st = "applyUpdate st u"
    note p = Suc.prems(1)[unfolded run_step[OF Inr]]
    show ?thesis
    proof (cases "toolResults ?st \<noteq> []")
      case False
      with p Suc.prems(2) show ?thesis by auto
    next
      case True
      obtain steps' out' where r: "run n e (fresh + allocated st) ?st = (steps', out')"
        by (cases "run n e (fresh + allocated st) ?st")
      with p True have s: "steps = (u, ?st) # steps'" and o: "out = out'"
        by simp_all
      show ?thesis
      proof (cases i)
        case 0
        have "out' \<noteq> Finished ?st" if "steps' = []"
          using r that True by (cases n) (auto simp: Let_def edge_route split: sum.splits prod.splits if_splits)
        with 0 s o True show ?thesis by auto
      next
        case (Suc j)
        with Suc.prems(2) s have "j < length steps'" by simp
        from Suc.IH[OF r this] Suc s o show ?thesis by simp
      qed
    qed
  qed
qed

lemma run_toolCalls_empty:
  "run n e fresh st = (steps, out) \<Longrightarrow> toolCalls st = [] \<Longrightarrow>
     \<forall>s\<in>set (map snd steps). toolCalls s = []"
proof (induction n arbitrary: fresh st steps out)
  case 0 then show ?case by simp
next
  case (Suc n)
  show ?case
  proof (cases "execute e fresh st")
    case (Inl err)
    with Suc.prems show ?thesis by simp
  next
    case (Inr u)
    let ?st = "applyUpdate st u"
    note p = Suc.prems(1)[unfolded run_step[OF Inr]]
    have tc: "toolCalls ?st = []"
      using applyUpdate_toolCalls[OF Suc.prems(2) execute_toolCalls[OF Inr]] .
    show ?thesis
    proof (cases "toolResults ?st \<noteq> []")
      case False
      with p tc show ?thesis by auto
    next
      case True
      obtain steps' out' where r: "run n e (fresh + allocated st) ?st = (steps', out')"
        by (cases "run n e (fresh + allocated st) ?st")
      with p True have s: "steps = (u, ?st) # steps'"
        by simp_all
      from Suc.IH[OF r tc] s tc show ?thesis by simp
    qed
  qed
qed

lemma run_finished:
  "run n e fresh st = (steps, Finished final) \<Longrightarrow>
     steps \<noteq> [] \<and> final = snd (last steps) \<and> toolResults final = []"
proof (induction n arbitrary: fresh st steps)
  case 0 then show ?case by simp
next
  case (Suc n)
  show ?case
  proof (cases "execute e fresh st")
    case (Inl err)
    with Suc.prems show ?thesis by simp
  next
    case (Inr u)
    let ?st = "applyUpdate st u"
    note p = Suc.prems(1)[unfolded run_step[OF Inr]]
    show ?thesis
    proof (cases "toolResults ?st \<noteq> []")
      case False
      with p show ?thesis by auto
    next
      case True
      obtain steps' out' where r: "run n e (fresh + allocated st) ?st = (steps', out')"
        by (cases "run n e (fresh + allocated st) ?st")
      with p True have s: "steps = (u, ?st) # steps'" and o: "out' = Finished final"
        by simp_all
      from Suc.IH[OF r[unfolded o]] s show ?thesis by auto
    qed
  qed
qed

section \<open>The example run\<close>

lemmas eval_defs =
  searchEnv_def searchCall_def afterToolStep_def afterFinalStep_def searchSteps_def
  execute_def execute_on_def getMessageList_def getLLMWithTools_def
  validateToolCalls_def processMessages_def toolMessageMap_def collectToolMessage_def
  allToolCallsHaveResponses_def hasResponse_def findLastAIMessageWithTools_def
  executeTools_def executeTools_try_def handleFinalResponse_def createToolMessagesFromResults_def
  applyUpdate_def messagesReducer_def replaceReducer_def edge_def route_def allocated_def
  addToolCallId_def set_add_def at_index_def Let_def newTurnState_def processUserInput_run_def

lemma search_run:
  "run (Suc (Suc 0)) searchEnv 1
     \<lparr>messages = [HumanMessage 0 ''weather?''], toolCalls = [], toolResults = []\<rparr>
   = (searchSteps, Finished afterFinalStep)"
  by (simp add: eval_defs)

section \<open>Properties of the node and of the chat route\<close>

lemma processMessages_valid:
  assumes "processMessages H N h p = Inr out"
  shows "requestIds out \<subseteq> resultIds out"
proof -
  let ?tm = "toolMessageMap H N"
  note ok = map_ok_toolMessageMap[of H N]
  from assms have res: "processMessages_loop ?tm h p H [] = Inr out"
    by (simp add: processMessages_def)
  have ans: "answered ?tm out"
    by (rule loop_answered[OF ok res]) (simp add: answered_def)
  show ?thesis
  proof
    fix i assume "i \<in> requestIds out"
    then obtain m tc where m: "m \<in> set out" "tc \<in> set (tool_calls m)" "tc_id tc = Some i"
      by (auto simp: requestIds_def)
    with ans have r: "hasResponse ?tm tc" and inn: "matching ?tm tc \<in> set out"
      by (auto simp: answered_def)
    from matching_is_tool_message[OF ok r] inn m(3) show "i \<in> resultIds out"
      by (auto simp: resultIds_def)
  qed
qed

lemma requestIds_Cons_plain: "tool_calls m = [] \<Longrightarrow> requestIds (m # ms) = requestIds ms"
  by (auto simp: requestIds_def)

lemma resultIds_Cons_mono: "resultIds ms \<subseteq> resultIds (m # ms)"
  by (auto simp: resultIds_def)

lemma getMessageList_valid:
  assumes "getMessageList e fresh st = Inr ms"
  shows "getLLMWithTools ms st = Inr ()"
proof -
  from assms obtain out where
    p: "processMessages (messages st)
          (fst (createToolMessages (stringify e) (Suc fresh) (toolResults st)
                  (findLastAIMessageWithTools (messages st))))
          (toolResults st \<noteq> []) (toolCalls st \<noteq> []) = Inr out"
    and ms: "ms = out \<or> ms = SystemMessage fresh (the (systemPrompt e)) # out"
    by (auto simp: getMessageList_def Let_def split: sum.splits if_splits)
  from processMessages_valid[OF p] have v: "requestIds out \<subseteq> resultIds out" .
  from ms have "requestIds ms \<subseteq> resultIds ms"
  proof
    assume "ms = out" with v show ?thesis by simp
  next
    assume s: "ms = SystemMessage fresh (the (systemPrompt e)) # out"
    have "requestIds ms = requestIds out" unfolding s by (rule requestIds_Cons_plain) simp
    moreover have "resultIds out \<subseteq> resultIds ms" unfolding s by (rule resultIds_Cons_mono)
    ultimately show ?thesis using v by blast
  qed
  then show ?thesis
    by (simp add: getLLMWithTools_def Let_def logger_error_def validateToolCalls_valid_iff)
qed

lemma toolCallsToExecute_length:
  "toolCallsToExecute e tcs = Inr calls \<Longrightarrow> length calls = length tcs"
  by (induction tcs arbitrary: calls) (auto split: sum.splits json.splits option.splits)

lemma accumulate_applyUpdate: "accumulate st u = applyUpdate st u"
  by (simp add: accumulate_def applyUpdate_def messagesReducer_def replaceReducer_def
        split: option.splits)

lemma scan_with_last:
  "extractAIResponse_scan xs (Some m) =
     (case find hasAnswerText xs of
        Some x \<Rightarrow> Some (content x)
      | None \<Rightarrow> (if content m \<noteq> [] then Some (content m) else None))"
proof (induction xs)
  case Nil then show ?case by simp
next
  case (Cons x xs)
  then show ?case by (cases x) simp_all
qed

lemma scan_nonempty: "extractAIResponse_scan xs lastAI = Some t \<Longrightarrow> t \<noteq> []"
proof (induction xs arbitrary: lastAI)
  case Nil then show ?case by (auto split: option.splits if_splits)
next
  case (Cons x xs)
  then show ?case by (cases x) (auto simp: Let_def split: if_splits)
qed

lemma extract_nonempty: "extractAIResponse st = Some t \<Longrightarrow> t \<noteq> []"
  by (auto simp: extractAIResponse_def dest: scan_nonempty split: if_splits)

lemma extract_after_tool_call:
  assumes "tcs \<noteq> []"
  shows "extractAIResponse \<lparr>messages = H @ [AIMessage a c tcs], toolCalls = x, toolResults = y\<rparr>
           = (case find hasAnswerText (rev H) of
                Some m \<Rightarrow> Some (content m)
              | None \<Rightarrow> (if c \<noteq> [] then Some c else None))"
  using assms scan_with_last[of "rev H" "AIMessage a c tcs"]
  by (simp add: extractAIResponse_def split: option.splits)

lemma extract_tool_call_response:
  assumes "\<forall>m\<in>set H. \<not> hasAnswerText m" and "tcs \<noteq> []"
  shows "extractAIResponse \<lparr>messages = H @ [AIMessage a c tcs], toolCalls = x, toolResults = y\<rparr>
           = (if c \<noteq> [] then Some c else None)"
proof -
  from assms(1) have "find hasAnswerText (rev H) = None" by (simp add: find_None_iff)
  with extract_after_tool_call[OF assms(2)] show ?thesis by simp
qed

lemma tool_call_step_quiet_iff:
  assumes "tcs \<noteq> []"
  shows "extractAIResponse \<lparr>messages = H @ [AIMessage a c tcs], toolCalls = x, toolResults = y\<rparr> = None
           \<longleftrightarrow> c = [] \<and> (\<forall>m\<in>set H. \<not> hasAnswerText m)"
proof (cases "find hasAnswerText (rev H)")
  case None
  then have "\<forall>m\<in>set H. \<not> hasAnswerText m" by (simp add: find_None_iff)
  with None extract_after_tool_call[OF assms, of H a c x y] show ?thesis by simp
next
  case (Some m)
  have "\<exists>m\<in>set H. hasAnswerText m"
  proof (rule ccontr)
    assume "\<not> (\<exists>m\<in>set H. hasAnswerText m)"
    then have "find hasAnswerText (rev H) = None" by (simp add: find_None_iff)
    with Some show False by simp
  qed
  with Some extract_after_tool_call[OF assms, of H a c x y] show ?thesis by auto
qed

lemma extract_final_answer:
  "c \<noteq> [] \<Longrightarrow>
     extractAIResponse \<lparr>messages = H @ [AIMessage a c []], toolCalls = x, toolResults = y\<rparr> = Some c"
  by (simp add: extractAIResponse_def)

lemma handleFinalResponse_update:
  "handleFinalResponse e k response st =
     \<lparr>upd_messages = Some (createToolMessagesFromResults e k st @ [response]),
      upd_toolCalls = None, upd_toolResults = Some []\<rparr>"
  by (simp add: handleFinalResponse_def Let_def)

lemma stream_loop_single:
  "stream_loop [u] acc lastContent events =
     (accumulate acc u,
      (case extractAIResponse (accumulate acc u) of
         None \<Rightarrow> events
       | Some currentResponse \<Rightarrow>
           (if currentResponse \<noteq> lastContent \<and> drop (length lastContent) currentResponse \<noteq> []
            then events @ [DeltaEvent (drop (length lastContent) currentResponse)]
            else events)))"
  by (auto simp: Let_def split: option.splits)

lemma stream_loop_step:
  "stream_loop (u # later) acc lastContent events =
     (case extractAIResponse (accumulate acc u) of
        None \<Rightarrow> stream_loop later (accumulate acc u) lastContent events
      | Some currentResponse \<Rightarrow>
          (if currentResponse \<noteq> lastContent \<and> drop (length lastContent) currentResponse \<noteq> []
           then stream_loop later (accumulate acc u) currentResponse
                  (events @ [DeltaEvent (drop (length lastContent) currentResponse)])
           else stream_loop later (accumulate acc u) lastContent events))"
  by (auto simp: Let_def split: option.splits)

lemma stream_loop_two_deltas:
  assumes "extractAIResponse (accumulate acc u1) = Some t1"
    and "t1 \<noteq> lastContent" and "drop (length lastContent) t1 \<noteq> []"
    and "extractAIResponse (accumulate (accumulate acc u1) u2) = Some t2"
    and "t2 \<noteq> t1" and "drop (length t1) t2 \<noteq> []"
  shows "snd (stream_loop [u1, u2] acc lastContent events) =
           events @ [DeltaEvent (drop (length lastContent) t1), DeltaEvent (drop (length t1) t2)]"
  unfolding stream_loop_step using assms by simp

lemma tool_call_step_delta_iff:
  assumes "tcs \<noteq> []"
  shows "snd (stream_loop
                [\<lparr>upd_messages = Some [AIMessage a c tcs], upd_toolCalls = Some [],
                  upd_toolResults = Some rs\<rparr>]
                \<lparr>messages = H, toolCalls = [], toolResults = []\<rparr> [] events) = events
           \<longleftrightarrow> c = [] \<and> (\<forall>m\<in>set H. \<not> hasAnswerText m)"
proof -
  let ?st = "\<lparr>messages = H @ [AIMessage a c tcs], toolCalls = [], toolResults = rs\<rparr>"
  have acc: "accumulate \<lparr>messages = H, toolCalls = [], toolResults = []\<rparr>
               \<lparr>upd_messages = Some [AIMessage a c tcs], upd_toolCalls = Some [],
                upd_toolResults = Some rs\<rparr> = ?st"
    by (simp add: accumulate_def)
  show ?thesis
  proof (cases "extractAIResponse ?st")
    case None
    with tool_call_step_quiet_iff[OF assms, of H a c "[]" rs] show ?thesis
      unfolding stream_loop_single acc by simp
  next
    case (Some t)
    from extract_nonempty[OF Some] have "t \<noteq> []" .
    with Some tool_call_step_quiet_iff[OF assms, of H a c "[]" rs] show ?thesis
      unfolding stream_loop_single acc by auto
  qed
qed

section \<open>Claims\<close>

text \<open>
  C5 (as amended). The tool results of the state are zipped by position against the
  tool calls of the most recent assistant message that has tool calls: for every index
  \<open>i\<close> of a result such that call \<open>i\<close> exists and has a non-empty id, a tool
  message is created whose \<^verbatim>\<open>tool_call_id\<close> is that id and whose content is the result
  itself when it is a string and its pretty-printed rendering otherwise, in the order of
  the indices. Every other result (no call at its index, or a call without id) is
  logged as a warning, with its index and name, and dropped.
\<close>

theorem createToolMessages_positional:
  assumes "reqs \<noteq> []" and "\<forall>x\<in>set post. \<not> hasToolCalls x"
  shows "createToolMessages sfy fresh records
           (findLastAIMessageWithTools (pre @ AIMessage a c reqs # post)) =
         ([ToolMessage (fresh + i) (resultContent sfy (result (records ! i)))
             (the (tc_id (reqs ! i))).
             i \<leftarrow> [0..<length records], i < length reqs \<and> truthy (tc_id (reqs ! i))],
          [WarnNoToolCallId i (result_name (records ! i)).
             i \<leftarrow> [0..<length records], \<not> (i < length reqs \<and> truthy (tc_id (reqs ! i)))])
         \<and> resultContent sfy (JStr s) = s
         \<and> ((\<forall>t. v \<noteq> JStr t) \<longrightarrow> resultContent sfy v = sfy v)"
proof -
  have found: "findLastAIMessageWithTools (pre @ AIMessage a c reqs # post)
                 = Some (AIMessage a c reqs)"
    using assms by (intro findLast_most_recent) simp_all
  have pairs: "createToolMessages_forEach sfy fresh reqs records 0 =
     (fst (createToolMessages_forEach sfy fresh reqs records 0),
      snd (createToolMessages_forEach sfy fresh reqs records 0))"
    by simp
  have content: "(\<forall>t. v \<noteq> JStr t) \<longrightarrow> resultContent sfy v = sfy v"
    by (cases v) simp_all
  show ?thesis
    unfolding found createToolMessages.simps
    by (subst pairs, unfold forEach_fst forEach_snd) (simp add: content cong: if_cong)
qed

text \<open>The theorem at a history of two messages and four results: the first and third
  become tool messages, the second (call without id) and the fourth (no call) are
  dropped with a warning.\<close>

theorem createToolMessages_positional_witness:
  "createToolMessages (\<lambda>v. ''{}'') 2
     [\<lparr>result_name = ''f'', result = JStr ''x''\<rparr>,
      \<lparr>result_name = ''g'', result = JNum 1\<rparr>,
      \<lparr>result_name = ''h'', result = JNull\<rparr>,
      \<lparr>result_name = ''k'', result = JNull\<rparr>]
     (findLastAIMessageWithTools
        ([HumanMessage 0 ''hi''] @
         AIMessage 1 []
           [\<lparr>tc_id = Some ''c1'', tc_name = ''f'', tc_args = JNull\<rparr>,
            \<lparr>tc_id = None, tc_name = ''g'', tc_args = JNull\<rparr>,
            \<lparr>tc_id = Some ''c3'', tc_name = ''h'', tc_args = JNull\<rparr>] # []))
   = ([ToolMessage 2 ''x'' ''c1'', ToolMessage 4 ''{}'' ''c3''],
      [WarnNoToolCallId 1 ''g'', WarnNoToolCallId 3 ''k''])"
  using createToolMessages_positional
    [of "[\<lparr>tc_id = Some ''c1'', tc_name = ''f'', tc_args = JNull\<rparr>,
          \<lparr>tc_id = None, tc_name = ''g'', tc_args = JNull\<rparr>,
          \<lparr>tc_id = Some ''c3'', tc_name = ''h'', tc_args = JNull\<rparr>]"
        "[]" "\<lambda>v. ''{}''" 2
        "[\<lparr>result_name = ''f'', result = JStr ''x''\<rparr>,
          \<lparr>result_name = ''g'', result = JNum 1\<rparr>,
          \<lparr>result_name = ''h'', result = JNull\<rparr>,
          \<lparr>result_name = ''k'', result = JNull\<rparr>]"
        "[HumanMessage 0 ''hi'']" 1 "[]" "[]" "JNull"]
  by (simp add: upt_rec[of 0] upt_rec[of 1] upt_rec[of 2] upt_rec[of 3] upt_rec[of 4])

text \<open>
  C5 as stated fails where a call has no id: the result at index 0 has a corresponding
  call, yet no tool message is created for it.
\<close>

theorem createToolMessages_request_without_id:
  "createToolMessages (\<lambda>v. []) 2 [\<lparr>result_name = ''search'', result = JStr ''sunny''\<rparr>]
     (findLastAIMessageWithTools
        [HumanMessage 0 ''weather?'',
         AIMessage 1 [] [\<lparr>tc_id = None, tc_name = ''search'', tc_args = JNull\<rparr>]])
   = ([], [WarnNoToolCallId 0 ''search''])"
  by (simp add: findLastAIMessageWithTools_def at_index_def)

text \<open>
  C1 (as amended). Whenever the filtering pass returns a list, (1) every tool call of
  every message of the list has a non-empty id, and the list contains a tool message
  with that id (somewhere, not necessarily behind the assistant message); (2) an
  assistant message with tool calls is in the list only if it is a message of the
  history and each of its call ids is the id of a tool message of the history or of the
  new tool messages; (3) directly behind each such assistant message the list has the
  tool messages that the map holds for its calls, each once and in the order of the
  calls, except those that the list already contains before the assistant message.
\<close>

theorem processMessages_requests_answered:
  assumes "processMessages H N h p = Inr out"
  shows "(\<forall>m\<in>set out. \<forall>tc\<in>set (tool_calls m).
            truthy (tc_id tc) \<and>
            (\<exists>t\<in>set out. isToolMessageWithId t \<and> tool_call_id t = the (tc_id tc)))
       \<and> (\<forall>m\<in>set out. hasToolCalls m \<longrightarrow>
            m \<in> set H \<and>
            (\<forall>tc\<in>set (tool_calls m).
               truthy (tc_id tc) \<and> the (tc_id tc) \<in> resultIds H \<union> resultIds N))
       \<and> (\<forall>pre m post. out = pre @ m # post \<and> hasToolCalls m \<longrightarrow>
            (\<exists>rest. post =
               filter (\<lambda>t. t \<notin> set pre)
                 (firstOccurrences (map (matching (toolMessageMap H N)) (tool_calls m)))
               @ rest))"
proof -
  let ?tm = "toolMessageMap H N"
  note ok = map_ok_toolMessageMap[of H N]
  from assms have res: "processMessages_loop ?tm h p H [] = Inr out"
    by (simp add: processMessages_def)
  have ans: "answered ?tm out"
    by (rule loop_answered[OF ok res]) (simp add: answered_def)
  have origin: "\<forall>m\<in>set out. hasToolCalls m \<longrightarrow>
                  m \<in> set H \<and> allToolCallsHaveResponses ?tm (tool_calls m)"
    by (rule loop_origin[OF ok res])
  have placed: "placed_ok ?tm out"
    by (rule loop_placed[OF ok res])
  have a: "truthy (tc_id tc) \<and>
           (\<exists>t\<in>set out. isToolMessageWithId t \<and> tool_call_id t = the (tc_id tc))"
    if "m \<in> set out" "tc \<in> set (tool_calls m)" for m tc
  proof -
    from ans that have r: "hasResponse ?tm tc" and i: "matching ?tm tc \<in> set out"
      by (auto simp: answered_def)
    from matching_is_tool_message[OF ok r] i hasResponse_truthy[OF r] show ?thesis by blast
  qed
  have b: "m \<in> set H \<and> (\<forall>tc\<in>set (tool_calls m).
             truthy (tc_id tc) \<and> the (tc_id tc) \<in> resultIds H \<union> resultIds N)"
    if "m \<in> set out" "hasToolCalls m" for m
  proof -
    from origin that have "m \<in> set H" and "\<forall>tc\<in>set (tool_calls m). hasResponse ?tm tc"
      by (auto simp: allToolCallsHaveResponses_def list_all_iff)
    then show ?thesis
      using hasResponse_truthy hasResponse_dom[of ?tm] dom_toolMessageMap[of H N] by blast
  qed
  have c: "\<exists>rest. post =
             filter (\<lambda>t. t \<notin> set pre)
               (firstOccurrences (map (matching ?tm) (tool_calls m))) @ rest"
    if "out = pre @ m # post" "hasToolCalls m" for pre m post
  proof -
    from that have "m \<in> set out" by simp
    with origin that(2) have "\<forall>tc\<in>set (tool_calls m). hasResponse ?tm tc"
      by (auto simp: allToolCallsHaveResponses_def list_all_iff)
    then have "filter (hasResponse ?tm) (tool_calls m) = tool_calls m"
      by (simp add: filter_id_conv)
    then have "placedAfter ?tm pre m =
                 filter (\<lambda>t. t \<notin> set pre)
                   (firstOccurrences (map (matching ?tm) (tool_calls m)))"
      by (simp add: placedAfter_def)
    with placed that show ?thesis unfolding placed_ok_def by metis
  qed
  from a b c show ?thesis by blast
qed

text \<open>The theorem at a history that ends with an assistant message with one tool call,
  reconciled with the new tool message of that call.\<close>

theorem processMessages_requests_answered_witness:
  "(processMessages
      
       [HumanMessage 0 ''weather?'',
        AIMessage 1 [] [\<lparr>tc_id = Some ''call_1'', tc_name = ''search'', tc_args = JNull\<rparr>]]
      [ToolMessage 3 ''sunny'' ''call_1''] True False
    = Inr 
       [HumanMessage 0 ''weather?'',
        AIMessage 1 [] [\<lparr>tc_id = Some ''call_1'', tc_name = ''search'', tc_args = JNull\<rparr>],
        ToolMessage 3 ''sunny'' ''call_1''])
   \<and> (\<exists>t\<in>set 
       [HumanMessage 0 ''weather?'',
        AIMessage 1 [] [\<lparr>tc_id = Some ''call_1'', tc_name = ''search'', tc_args = JNull\<rparr>],
        ToolMessage 3 ''sunny'' ''call_1''].
         isToolMessageWithId t \<and> tool_call_id t = ''call_1'')
   \<and> ''call_1'' \<in> resultIds 
       [HumanMessage 0 ''weather?'',
        AIMessage 1 [] [\<lparr>tc_id = Some ''call_1'', tc_name = ''search'', tc_args = JNull\<rparr>]] \<union> resultIds [ToolMessage 3 ''sunny'' ''call_1'']
   \<and> (\<exists>rest. [ToolMessage 3 ''sunny'' ''call_1''] =
         filter (\<lambda>t. t \<notin> set [HumanMessage 0 ''weather?''])
           (firstOccurrences (map (matching (toolMessageMap 
       [HumanMessage 0 ''weather?'',
        AIMessage 1 [] [\<lparr>tc_id = Some ''call_1'', tc_name = ''search'', tc_args = JNull\<rparr>]]
              [ToolMessage 3 ''sunny'' ''call_1'']))
              [\<lparr>tc_id = Some ''call_1'', tc_name = ''search'', tc_args = JNull\<rparr>])) @ rest)"
proof -
  let ?A = "AIMessage 1 [] [\<lparr>tc_id = Some ''call_1'', tc_name = ''search'', tc_args = JNull\<rparr>]"
  have h: "processMessages
      
       [HumanMessage 0 ''weather?'',
        AIMessage 1 [] [\<lparr>tc_id = Some ''call_1'', tc_name = ''search'', tc_args = JNull\<rparr>]]
      [ToolMessage 3 ''sunny'' ''call_1''] True False
    = Inr 
       [HumanMessage 0 ''weather?'',
        AIMessage 1 [] [\<lparr>tc_id = Some ''call_1'', tc_name = ''search'', tc_args = JNull\<rparr>],
        ToolMessage 3 ''sunny'' ''call_1'']"
    by (simp add: processMessages_def toolMessageMap_def collectToolMessage_def
          allToolCallsHaveResponses_def hasResponse_def)
  note t = processMessages_requests_answered[OF h]
  have a: "\<exists>t\<in>set 
       [HumanMessage 0 ''weather?'',
        AIMessage 1 [] [\<lparr>tc_id = Some ''call_1'', tc_name = ''search'', tc_args = JNull\<rparr>],
        ToolMessage 3 ''sunny'' ''call_1''].
         isToolMessageWithId t \<and> tool_call_id t = ''call_1''"
    using t[THEN conjunct1, THEN bspec, of ?A, THEN bspec, of "\<lparr>tc_id = Some ''call_1'', tc_name = ''search'', tc_args = JNull\<rparr>"] by simp
  have b: "''call_1'' \<in> resultIds 
       [HumanMessage 0 ''weather?'',
        AIMessage 1 [] [\<lparr>tc_id = Some ''call_1'', tc_name = ''search'', tc_args = JNull\<rparr>]] \<union> resultIds [ToolMessage 3 ''sunny'' ''call_1'']"
    using t[THEN conjunct2, THEN conjunct1, THEN bspec, of ?A] by simp
  have c: "\<exists>rest. [ToolMessage 3 ''sunny'' ''call_1''] =
         filter (\<lambda>t. t \<notin> set [HumanMessage 0 ''weather?''])
           (firstOccurrences (map (matching (toolMessageMap 
       [HumanMessage 0 ''weather?'',
        AIMessage 1 [] [\<lparr>tc_id = Some ''call_1'', tc_name = ''search'', tc_args = JNull\<rparr>]]
              [ToolMessage 3 ''sunny'' ''call_1'']))
              [\<lparr>tc_id = Some ''call_1'', tc_name = ''search'', tc_args = JNull\<rparr>])) @ rest"
    using t[THEN conjunct2, THEN conjunct2, THEN spec, of "[HumanMessage 0 ''weather?'']",
            THEN spec, of ?A, THEN spec, of "[ToolMessage 3 ''sunny'' ''call_1'']"] by simp
  from h a b c show ?thesis by blast
qed

text \<open>
  C1 as stated fails: a tool message that precedes the assistant message with the
  matching tool call stays where it is, the assistant message is included, and no tool
  message with its call id follows it.
\<close>

theorem processMessages_result_before_request:
  "processMessages
     [ToolMessage 1 ''sunny'' ''call_1'',
      AIMessage 2 [] [\<lparr>tc_id = Some ''call_1'', tc_name = ''search'', tc_args = JNull\<rparr>]]
     [] False False
   = Inr [ToolMessage 1 ''sunny'' ''call_1'',
          AIMessage 2 [] [\<lparr>tc_id = Some ''call_1'', tc_name = ''search'', tc_args = JNull\<rparr>]]"
  by (simp add: processMessages_def toolMessageMap_def collectToolMessage_def
        allToolCallsHaveResponses_def hasResponse_def)

text \<open>
  C2 (as amended). Let \<open>H\<close> be a history in which every assistant message with tool
  calls is directly followed by the tool messages of its calls, one per call and in the
  order of the calls, every call id is non-empty, and no two tool messages have the
  same id. Then the filtering pass with no new tool messages returns \<open>H\<close> itself:
  the same messages in the same order. With an empty list of tool results,
  \<^verbatim>\<open>getMessageList\<close> returns \<open>H\<close>, behind the system message when it adds one.
\<close>

theorem settled_history_unchanged:
  assumes "settledFrom [] H" and "distinct (toolMessageIds H)"
  shows "processMessages H [] h p = Inr H
       \<and> getMessageList e fresh \<lparr>messages = H, toolCalls = calls, toolResults = []\<rparr>
           = Inr ((if \<not> list_ex isSystemMessage H \<and> truthy (systemPrompt e)
                   then [SystemMessage fresh (the (systemPrompt e))] else []) @ H)"
proof -
  let ?tm = "toolMessageMap H []"
  have own: "\<forall>t\<in>set ([] @ H). isToolMessageWithId t \<longrightarrow> ?tm (tool_call_id t) = Some t"
    using toolMessageMap_own[OF assms(2)] by simp
  have d: "distinct (toolMessageIds ([] @ H))" using assms(2) by simp
  have loop: "processMessages_loop ?tm hp pp H [] = Inr H" for hp pp
    using settled_loop[OF map_ok_toolMessageMap own d assms(1), where h = hp and p = pp]
    by simp
  then have pm: "processMessages H [] hp pp = Inr H" for hp pp
    by (simp add: processMessages_def)
  have none: "createToolMessages sfy k [] last = ([], [])" for sfy k last
    by (cases "(sfy, k, []::tool_result list, last)" rule: createToolMessages.cases) simp_all
  show ?thesis
    by (simp add: pm getMessageList_def none Let_def)
qed

text \<open>The theorem at the history of a finished turn with one tool call.\<close>

theorem settled_history_unchanged_witness:
  "settledFrom []
     [HumanMessage 0 ''weather?'',
      AIMessage 1 [] [\<lparr>tc_id = Some ''call_1'', tc_name = ''search'', tc_args = JNull\<rparr>],
      ToolMessage 2 ''sunny'' ''call_1'',
      AIMessage 3 ''It is sunny.'' []]
   \<and> distinct (toolMessageIds
     [HumanMessage 0 ''weather?'',
      AIMessage 1 [] [\<lparr>tc_id = Some ''call_1'', tc_name = ''search'', tc_args = JNull\<rparr>],
      ToolMessage 2 ''sunny'' ''call_1'',
      AIMessage 3 ''It is sunny.'' []])
   \<and> processMessages
     [HumanMessage 0 ''weather?'',
      AIMessage 1 [] [\<lparr>tc_id = Some ''call_1'', tc_name = ''search'', tc_args = JNull\<rparr>],
      ToolMessage 2 ''sunny'' ''call_1'',
      AIMessage 3 ''It is sunny.'' []]
     [] False False
     = Inr
     [HumanMessage 0 ''weather?'',
      AIMessage 1 [] [\<lparr>tc_id = Some ''call_1'', tc_name = ''search'', tc_args = JNull\<rparr>],
      ToolMessage 2 ''sunny'' ''call_1'',
      AIMessage 3 ''It is sunny.'' []]"
proof -
  have s: "settledFrom []
     [HumanMessage 0 ''weather?'',
      AIMessage 1 [] [\<lparr>tc_id = Some ''call_1'', tc_name = ''search'', tc_args = JNull\<rparr>],
      ToolMessage 2 ''sunny'' ''call_1'',
      AIMessage 3 ''It is sunny.'' []]"
    by simp
  have d: "distinct (toolMessageIds
     [HumanMessage 0 ''weather?'',
      AIMessage 1 [] [\<lparr>tc_id = Some ''call_1'', tc_name = ''search'', tc_args = JNull\<rparr>],
      ToolMessage 2 ''sunny'' ''call_1'',
      AIMessage 3 ''It is sunny.'' []])"
    by (simp add: toolMessageIds_def)
  from settled_history_unchanged[OF s d, of False False, THEN conjunct1] s d
  show ?thesis by blast
qed

text \<open>
  C2 as stated fails: in the history below the only tool call has its tool message, so
  the history is fully settled in the sense of the claim, but the tool message does not
  directly follow the assistant message. The filtering pass moves it there.
\<close>

theorem settled_history_reordered:
  "processMessages
     [AIMessage 1 [] [\<lparr>tc_id = Some ''call_1'', tc_name = ''search'', tc_args = JNull\<rparr>],
      HumanMessage 2 ''and tomorrow?'',
      ToolMessage 3 ''sunny'' ''call_1'']
     [] False False
   = Inr
     [AIMessage 1 [] [\<lparr>tc_id = Some ''call_1'', tc_name = ''search'', tc_args = JNull\<rparr>],
      ToolMessage 3 ''sunny'' ''call_1'',
      HumanMessage 2 ''and tomorrow?'']"
  by (simp add: processMessages_def toolMessageMap_def collectToolMessage_def
        allToolCallsHaveResponses_def hasResponse_def)

text \<open>
  C3 says that a call whose tool throws yields an error record at its position and
  leaves the sibling results alone. Running the executor on two calls, the first of
  which succeeds and the second of which throws: the whole batch fails with the error
  thrown by \<^verbatim>\<open>logger.error\<close> in the \<^verbatim>\<open>catch\<close> block, and no result list is returned.
\<close>

theorem executeTools_throwing_tool_aborts_batch:
  "executeTools
     [''a'' \<mapsto> (\<lambda>args. Inr (JStr ''ok'')), ''b'' \<mapsto> (\<lambda>args. Inl ''boom'')]
     [\<lparr>call_name = ''a'', call_args = JObj []\<rparr>, \<lparr>call_name = ''b'', call_args = JObj []\<rparr>]
   = Inl (ToolExecutionFailed ''b'')"
  by (simp add: executeTools_def executeTools_try_def logger_error_def)

text \<open>
  C4 says that a call of an unregistered tool is recorded as an error result and the
  batch goes on. Running the executor on a call of the unregistered tool \<^verbatim>\<open>search\<close>
  followed by a call of a registered tool: the batch fails, the second call is not
  executed and no result list is returned.
\<close>

theorem executeTools_missing_tool_aborts_batch:
  "executeTools
     [''a'' \<mapsto> (\<lambda>args. Inr (JStr ''ok''))]
     [\<lparr>call_name = ''search'', call_args = JObj []\<rparr>, \<lparr>call_name = ''a'', call_args = JObj []\<rparr>]
   = Inl (ToolExecutionFailed ''search'')"
  by (simp add: executeTools_def executeTools_try_def logger_error_def)

text \<open>
  C6. The validation that runs on the assembled list before the model is called
  collects the non-empty ids of all tool calls and the ids of all tool messages; the
  ids it reports as missing are exactly the call ids without a tool message, and the
  list is valid exactly when there is none. When an id is missing, the step fails with
  the error of \<^verbatim>\<open>logger.error\<close>, carrying the missing ids: the model is not called,
  the list is not changed and no tool message is made up. The failure of a step is the
  failure of the run (\<open>Failed\<close>), hence of the turn.
\<close>

theorem validation_failure_fails_the_step:
  "set (missingToolCallIds (validateToolCalls msgs)) = requestIds msgs - resultIds msgs
   \<and> (isValid (validateToolCalls msgs) \<longleftrightarrow> requestIds msgs \<subseteq> resultIds msgs)
   \<and> (getLLMWithTools msgs st = Inr () \<longleftrightarrow> requestIds msgs \<subseteq> resultIds msgs)
   \<and> (\<not> requestIds msgs \<subseteq> resultIds msgs \<longrightarrow>
        execute_on e fresh st msgs =
          (if toolResults st = []
           then Inl (CannotSendToLLM (missingToolCallIds (validateToolCalls msgs))
                       (toolCalls st \<noteq> []))
           else Inl (UnfinishedDespiteToolResults (missingToolCallIds (validateToolCalls msgs))
                       (length (toolResults st)) (length (toolCalls st)))))
   \<and> (execute e fresh st = Inl err \<longrightarrow> invoke (Suc n) e fresh st = Failed err)"
proof -
  have g: "getLLMWithTools msgs st = Inr () \<longleftrightarrow> requestIds msgs \<subseteq> resultIds msgs"
    by (simp add: getLLMWithTools_def Let_def logger_error_def validateToolCalls_valid_iff)
  have x: "execute_on e fresh st msgs =
          (if toolResults st = []
           then Inl (CannotSendToLLM (missingToolCallIds (validateToolCalls msgs))
                       (toolCalls st \<noteq> []))
           else Inl (UnfinishedDespiteToolResults (missingToolCallIds (validateToolCalls msgs))
                       (length (toolResults st)) (length (toolCalls st))))"
    if "\<not> requestIds msgs \<subseteq> resultIds msgs"
    using that
    by (simp add: execute_on_def getLLMWithTools_def Let_def logger_error_def
          validateToolCalls_valid_iff)
  have f: "invoke (Suc n) e fresh st = Failed err" if "execute e fresh st = Inl err"
    using that by (simp add: invoke_def)
  show ?thesis
    using validateToolCalls_missing validateToolCalls_valid_iff g x f by blast
qed

text \<open>The theorem at a list whose only message is an assistant message with an
  unanswered tool call.\<close>

theorem validation_failure_fails_the_step_witness:
  "\<not> requestIds [AIMessage 1 [] [\<lparr>tc_id = Some ''call_1'', tc_name = ''search'', tc_args = JNull\<rparr>]]
       \<subseteq> resultIds [AIMessage 1 [] [\<lparr>tc_id = Some ''call_1'', tc_name = ''search'', tc_args = JNull\<rparr>]]
   \<and> execute_on
        \<lparr>llm = (\<lambda>ms. Inr (''hello'', [])), toolRegistry = Map.empty, systemPrompt = None,
         stringify = (\<lambda>v. []), jsonParse = (\<lambda>s. None)\<rparr>
        2 \<lparr>messages = [], toolCalls = [], toolResults = []\<rparr>
        [AIMessage 1 [] [\<lparr>tc_id = Some ''call_1'', tc_name = ''search'', tc_args = JNull\<rparr>]]
      = Inl (CannotSendToLLM [''call_1''] False)"
proof -
  let ?msgs = "[AIMessage 1 [] [\<lparr>tc_id = Some ''call_1'', tc_name = ''search'', tc_args = JNull\<rparr>]]"
  have n: "\<not> requestIds ?msgs \<subseteq> resultIds ?msgs"
    by (simp add: requestIds_def resultIds_def)
  have m: "missingToolCallIds (validateToolCalls ?msgs) = [''call_1'']"
    by (simp add: validateToolCalls_def addToolCallId_def set_add_def Let_def)
  from validation_failure_fails_the_step[where msgs = ?msgs and fresh = 2, THEN conjunct2, THEN conjunct2,
         THEN conjunct2, THEN conjunct1, THEN mp, OF n] n m
  show ?thesis by simp
qed

text \<open>
  C7. After a step of the agent node that returns a partial state, the workflow merges
  it into the state and looks at the tool results of the merged state: when they are
  not empty it runs the node again on the merged state, otherwise the run is finished
  and yields the merged state. Hence, in every run, the state after step \<open>i\<close> has no
  tool results if and only if step \<open>i\<close> is the last step and the run finished with
  that state.
\<close>

theorem workflow_continues_iff_tool_results:
  "(execute e fresh st = Inr u \<longrightarrow>
      run (Suc n) e fresh st =
        (if toolResults (applyUpdate st u) \<noteq> []
         then (let (steps, out) = run n e (fresh + allocated st) (applyUpdate st u)
               in ((u, applyUpdate st u) # steps, out))
         else ([(u, applyUpdate st u)], Finished (applyUpdate st u))))
   \<and> (run n e fresh st = (steps, out) \<longrightarrow>
        (\<forall>i<length steps.
           toolResults (snd (steps ! i)) = [] \<longleftrightarrow>
             Suc i = length steps \<and> out = Finished (snd (steps ! i))))"
  using run_step[of e fresh st u n] run_stops_iff[of n e fresh st steps out] by blast

text \<open>The theorem at the example run: the state after the first step has tool results
  and a second step follows; the state after the second has none and is the final
  state.\<close>

theorem workflow_continues_iff_tool_results_witness:
  "run (Suc (Suc 0)) searchEnv 1
     \<lparr>messages = [HumanMessage 0 ''weather?''], toolCalls = [], toolResults = []\<rparr>
     = (searchSteps, Finished afterFinalStep)
   \<and> toolResults (snd (searchSteps ! 0)) \<noteq> []
   \<and> toolResults (snd (searchSteps ! 1)) = []"
proof -
  have r: "run (Suc (Suc 0)) searchEnv 1
     \<lparr>messages = [HumanMessage 0 ''weather?''], toolCalls = [], toolResults = []\<rparr>
     = (searchSteps, Finished afterFinalStep)"
    by (rule search_run)
  note t = workflow_continues_iff_tool_results[THEN conjunct2, THEN mp, OF r]
  have len: "length searchSteps = 2" by (simp add: searchSteps_def)
  from t[THEN spec, of 0] len have a: "toolResults (snd (searchSteps ! 0)) \<noteq> []" by simp
  have "Finished afterFinalStep = Finished (snd (searchSteps ! 1))" by (simp add: searchSteps_def)
  with t[THEN spec, of 1] len have b: "toolResults (snd (searchSteps ! 1)) = []" by simp
  from r a b show ?thesis by blast
qed

text \<open>
  C8 (as amended). The chat route keeps the text it has emitted last
  (\<open>lastContent\<close>). For every step it takes the current response text; when that
  text differs from \<open>lastContent\<close> and its suffix behind the first
  \<open>length lastContent\<close> characters is not empty, the route sends that suffix as a
  delta and the current text becomes \<open>lastContent\<close> for the steps that follow;
  otherwise it sends nothing and \<open>lastContent\<close> stays. So of two steps that both
  send a delta, the second delta is the second text behind the length of the first
  text. A step whose response carries tool calls sends no delta as the first step of a
  request exactly when the response has no text and no assistant message without tool
  calls in the history of the request has text. For a run of two model calls on such a
  history, the first answered by tool calls without text, all of whose tools run, and
  the second by a non-empty text without tool calls, the route sends exactly one delta,
  the final answer, then the final message with the full text, then the terminal
  \<^verbatim>\<open>[DONE]\<close>, and no delta during the tool call step.
\<close>

theorem streaming_emits_suffix_deltas:
  assumes quiet: "\<forall>m\<in>set H. \<not> hasAnswerText m"
    and g1: "getMessageList e fresh \<lparr>messages = H, toolCalls = [], toolResults = []\<rparr> = Inr ms1"
    and l1: "llm e ms1 = Inr ([], tcs)" and tcs: "tcs \<noteq> []"
    and c1: "toolCallsToExecute e tcs = Inr calls"
    and x1: "executeTools (toolRegistry e) calls = Inr results"
    and g2: "getMessageList e (fresh + 2)
               \<lparr>messages = H @ [AIMessage (Suc fresh) [] tcs], toolCalls = [],
                toolResults = results\<rparr> = Inr ms2"
    and l2: "llm e ms2 = Inr (answer, [])" and ans: "answer \<noteq> []"
  shows "POST_stream (Suc (Suc n)) e fresh \<lparr>messages = H, toolCalls = [], toolResults = []\<rparr>
           = [DeltaEvent answer, MessageEvent answer, DoneEvent]
       \<and> stream_loop (u # later) acc lastContent events =
           (case extractAIResponse (accumulate acc u) of
              None \<Rightarrow> stream_loop later (accumulate acc u) lastContent events
            | Some currentResponse \<Rightarrow>
                (if currentResponse \<noteq> lastContent
                    \<and> drop (length lastContent) currentResponse \<noteq> []
                 then stream_loop later (accumulate acc u) currentResponse
                        (events @ [DeltaEvent (drop (length lastContent) currentResponse)])
                 else stream_loop later (accumulate acc u) lastContent events))
       \<and> (extractAIResponse (accumulate acc u1) = Some t1
            \<and> t1 \<noteq> lastContent \<and> drop (length lastContent) t1 \<noteq> []
            \<and> extractAIResponse (accumulate (accumulate acc u1) u2) = Some t2
            \<and> t2 \<noteq> t1 \<and> drop (length t1) t2 \<noteq> []
            \<longrightarrow> snd (stream_loop [u1, u2] acc lastContent events) =
                  events @ [DeltaEvent (drop (length lastContent) t1),
                            DeltaEvent (drop (length t1) t2)])
       \<and> snd (stream_loop
                [\<lparr>upd_messages = Some [AIMessage a [] tcs], upd_toolCalls = Some [],
                  upd_toolResults = Some results\<rparr>]
                \<lparr>messages = H, toolCalls = [], toolResults = []\<rparr> lastContent events)
           = events
       \<and> (tcs' \<noteq> [] \<longrightarrow>
            (snd (stream_loop
                    [\<lparr>upd_messages = Some [AIMessage a' c' tcs'], upd_toolCalls = Some [],
                      upd_toolResults = Some rs'\<rparr>]
                    \<lparr>messages = H', toolCalls = [], toolResults = []\<rparr> [] events) = events
               \<longleftrightarrow> c' = [] \<and> (\<forall>m\<in>set H'. \<not> hasAnswerText m)))"
proof -
  let ?st0 = "\<lparr>messages = H, toolCalls = [], toolResults = []\<rparr>"
  let ?A = "AIMessage (Suc fresh) [] tcs"
  let ?u1 = "\<lparr>upd_messages = Some [?A], upd_toolCalls = Some [],
              upd_toolResults = Some results\<rparr>"
  let ?st1 = "\<lparr>messages = H @ [?A], toolCalls = [], toolResults = results\<rparr>"
  let ?k = "fresh + 2 + 1 + length results"
  let ?F = "AIMessage ?k answer []"
  let ?tms = "createToolMessagesFromResults e (Suc ?k) ?st1"
  let ?u2 = "\<lparr>upd_messages = Some (?tms @ [?F]), upd_toolCalls = None,
              upd_toolResults = Some []\<rparr>"
  let ?st2 = "\<lparr>messages = (H @ [?A]) @ ?tms @ [?F], toolCalls = [], toolResults = []\<rparr>"
  have e1: "execute e fresh ?st0 = Inr ?u1"
    using g1 getMessageList_valid[OF g1] l1 tcs c1 x1
    by (simp add: execute_def execute_on_def)
  have a1: "applyUpdate ?st0 ?u1 = ?st1"
    by (simp add: applyUpdate_def messagesReducer_def replaceReducer_def)
  have res: "results \<noteq> []"
    using executeTools_length[OF x1] toolCallsToExecute_length[OF c1] tcs by auto
  have e2: "execute e (fresh + 2) ?st1 = Inr ?u2"
    using g2 getMessageList_valid[OF g2] l2
    by (simp add: execute_def execute_on_def handleFinalResponse_update)
  have a2: "applyUpdate ?st1 ?u2 = ?st2"
    by (simp add: applyUpdate_def messagesReducer_def replaceReducer_def)
  have r2: "run (Suc n) e (fresh + 2) ?st1 = ([(?u2, ?st2)], Finished ?st2)"
    unfolding run_step[OF e2] a2 by simp
  have r1: "run (Suc (Suc n)) e fresh ?st0 = ([(?u1, ?st1), (?u2, ?st2)], Finished ?st2)"
    unfolding run_step[OF e1] a1 using res r2 by (simp add: allocated_def)
  have x0: "extractAIResponse ?st1 = None"
    using extract_tool_call_response[OF quiet tcs, of "Suc fresh" "[]"] by simp
  have x2: "extractAIResponse ?st2 = Some answer"
    using extract_final_answer[OF ans, of "(H @ [?A]) @ ?tms"] by simp
  have s: "stream_loop [?u1, ?u2] ?st0 [] [] = (?st2, [DeltaEvent answer])"
    using x0 x2 ans a1 a2 by (simp add: accumulate_applyUpdate)
  have post: "POST_stream (Suc (Suc n)) e fresh ?st0
           = [DeltaEvent answer, MessageEvent answer, DoneEvent]"
    unfolding POST_stream_def stream_def r1 using ans x2 s by (simp del: run.simps stream_loop.simps)
  have x0': "extractAIResponse \<lparr>messages = H @ [AIMessage a [] tcs], toolCalls = [],
                toolResults = results\<rparr> = None"
    using extract_tool_call_response[OF quiet tcs, of a "[]"] by simp
  have silent: "snd (stream_loop
                [\<lparr>upd_messages = Some [AIMessage a [] tcs], upd_toolCalls = Some [],
                  upd_toolResults = Some results\<rparr>] ?st0 lastContent events) = events"
    unfolding stream_loop_single using x0' by (simp add: accumulate_def)
  note step = stream_loop_step[of u later acc lastContent events]
  have two: "extractAIResponse (accumulate acc u1) = Some t1
            \<and> t1 \<noteq> lastContent \<and> drop (length lastContent) t1 \<noteq> []
            \<and> extractAIResponse (accumulate (accumulate acc u1) u2) = Some t2
            \<and> t2 \<noteq> t1 \<and> drop (length t1) t2 \<noteq> []
            \<longrightarrow> snd (stream_loop [u1, u2] acc lastContent events) =
                  events @ [DeltaEvent (drop (length lastContent) t1),
                            DeltaEvent (drop (length t1) t2)]"
    using stream_loop_two_deltas[of acc u1 t1 lastContent u2 t2 events] by blast
  have iff: "tcs' \<noteq> [] \<longrightarrow>
            (snd (stream_loop
                    [\<lparr>upd_messages = Some [AIMessage a' c' tcs'], upd_toolCalls = Some [],
                      upd_toolResults = Some rs'\<rparr>]
                    \<lparr>messages = H', toolCalls = [], toolResults = []\<rparr> [] events) = events
               \<longleftrightarrow> c' = [] \<and> (\<forall>m\<in>set H'. \<not> hasAnswerText m))"
    using tool_call_step_delta_iff[of tcs' a' c' rs' H' events] by blast
  from post step two silent iff show ?thesis by (intro conjI)
qed

text \<open>The theorem at the example run, and at two steps that both send a delta: the
  tool call response has the text \<^verbatim>\<open>It is\<close>, the final answer is \<^verbatim>\<open>It is sunny.\<close>,
  and the second delta is what the answer adds.\<close>

theorem streaming_emits_suffix_deltas_witness:
  "list_all (\<lambda>m. \<not> hasAnswerText m) [HumanMessage 0 ''weather?'']
   \<and> llm searchEnv [HumanMessage 0 ''weather?''] = Inr ([], [searchCall])
   \<and> llm searchEnv [HumanMessage 0 ''weather?'', AIMessage 2 [] [searchCall],
                      ToolMessage 4 ''sunny'' ''call_1''] = Inr (''It is sunny.'', [])
   \<and> POST_stream (Suc (Suc 0)) searchEnv 1
        \<lparr>messages = [HumanMessage 0 ''weather?''], toolCalls = [], toolResults = []\<rparr>
      = [DeltaEvent ''It is sunny.'', MessageEvent ''It is sunny.'', DoneEvent]
   \<and> snd (stream_loop growingUpdates
        \<lparr>messages = [HumanMessage 0 ''weather?''], toolCalls = [], toolResults = []\<rparr> [] [])
      = [DeltaEvent ''It is'', DeltaEvent '' sunny.'']"
proof -
  let ?H = "[HumanMessage 0 ''weather?'']"
  let ?st0 = "\<lparr>messages = ?H, toolCalls = [], toolResults = []\<rparr>"
  let ?ms2 = "[HumanMessage 0 ''weather?'', AIMessage 2 [] [searchCall],
               ToolMessage 4 ''sunny'' ''call_1'']"
  let ?results = "[\<lparr>result_name = ''search'', result = JStr ''sunny''\<rparr>]"
  let ?u1 = "\<lparr>upd_messages = Some [AIMessage 2 ''It is'' [searchCall]], upd_toolCalls = Some [],
              upd_toolResults = Some ?results\<rparr>"
  let ?u2 = "\<lparr>upd_messages = Some [ToolMessage 6 ''sunny'' ''call_1'',
                                   AIMessage 5 ''It is sunny.'' []],
              upd_toolCalls = None, upd_toolResults = Some []\<rparr>"
  have quiet: "\<forall>m\<in>set ?H. \<not> hasAnswerText m" by simp
  have g1: "getMessageList searchEnv 1 ?st0 = Inr ?H"
    by (simp add: eval_defs)
  have l1: "llm searchEnv ?H = Inr ([], [searchCall])" by (simp add: eval_defs)
  have tcs: "[searchCall] \<noteq> []" by simp
  have c1: "toolCallsToExecute searchEnv [searchCall]
              = Inr [\<lparr>call_name = ''search'', call_args = JObj []\<rparr>]"
    by (simp add: eval_defs)
  have x1: "executeTools (toolRegistry searchEnv) [\<lparr>call_name = ''search'', call_args = JObj []\<rparr>]
              = Inr ?results"
    by (simp add: eval_defs)
  have g2: "getMessageList searchEnv (1 + 2)
               \<lparr>messages = ?H @ [AIMessage (Suc 1) [] [searchCall]], toolCalls = [],
                toolResults = ?results\<rparr> = Inr ?ms2"
    by (simp add: eval_defs)
  have l2: "llm searchEnv ?ms2 = Inr (''It is sunny.'', [])" by (simp add: eval_defs)
  have ans: "''It is sunny.'' \<noteq> []" by simp
  note t = streaming_emits_suffix_deltas[OF quiet g1 l1 tcs c1 x1 g2 l2 ans]
  have first: "extractAIResponse (accumulate ?st0 ?u1) = Some ''It is''"
    by (simp add: accumulate_def extractAIResponse_def searchCall_def)
  have second: "extractAIResponse (accumulate (accumulate ?st0 ?u1) ?u2) = Some ''It is sunny.''"
    by (simp add: accumulate_def extractAIResponse_def searchCall_def)
  have p: "POST_stream (Suc (Suc 0)) searchEnv 1 ?st0
             = [DeltaEvent ''It is sunny.'', MessageEvent ''It is sunny.'', DoneEvent]"
    using t[where n = 0, THEN conjunct1] by simp
  have "snd (stream_loop [?u1, ?u2] ?st0 [] [])
          = [] @ [DeltaEvent (drop (length ([]::string)) ''It is''),
                  DeltaEvent (drop (length ''It is'') ''It is sunny.'')]"
    by (rule t[where acc = ?st0 and ?u1.0 = ?u1 and ?u2.0 = ?u2 and lastContent = "[]"
                 and ?t1.0 = "''It is''" and ?t2.0 = "''It is sunny.''" and events = "[]",
               THEN conjunct2, THEN conjunct2, THEN conjunct1, THEN mp])
       (simp add: first second)
  then have d: "snd (stream_loop growingUpdates ?st0 [] [])
                  = [DeltaEvent ''It is'', DeltaEvent '' sunny.'']"
    by (simp add: growingUpdates_def)
  from p d l1 l2 show ?thesis by simp
qed

text \<open>
  C8 as stated fails in two ways. First request of a conversation, tool call response
  with text: \<^verbatim>\<open>extractAIResponse\<close> falls back to the content of the last assistant
  message even though it carries tool calls, so that text is sent as a delta during the
  tool call step, and the final answer, which is not longer than that text, gets no
  delta. Later request of a conversation, tool call response without text: the history
  holds the answer \<^verbatim>\<open>Hi!\<close> of the turn before, \<^verbatim>\<open>extractAIResponse\<close> returns it for
  the state after the tool call step, so it is sent as a delta during that step, and
  the delta of the final answer lacks the first three characters of the answer.
\<close>

theorem streaming_delta_during_tool_call_step:
  "POST_stream (Suc (Suc 0)) chattyEnv 1
     \<lparr>messages = [HumanMessage 0 ''weather?''], toolCalls = [], toolResults = []\<rparr>
   = [DeltaEvent ''Let me check.'', MessageEvent ''It is sunny.'', DoneEvent]
   \<and> POST_stream (Suc (Suc 0)) searchEnv 3
     \<lparr>messages = [HumanMessage 0 ''hello'', AIMessage 1 ''Hi!'' [], HumanMessage 2 ''weather?''],
      toolCalls = [], toolResults = []\<rparr>
   = [DeltaEvent ''Hi!'', DeltaEvent ''is sunny.'', MessageEvent ''It is sunny.'', DoneEvent]"
  by (simp add: chattyEnv_def eval_defs POST_stream_def stream_def accumulate_def
        extractAIResponse_def)

text \<open>
  C9. The state with which \<^verbatim>\<open>processUserInput\<close> starts a turn, right after the user
  message has been appended to the history, has no pending tool calls and no tool
  results. In the run of that turn the list of pending tool calls is empty after every
  step; the final state of a finished run has neither pending tool calls nor tool
  results; and a state after a step has tool results exactly when it is not the final
  state of a finished run, that is, when the run goes on to the next model call.
\<close>

theorem scratch_lists_empty_at_turn_boundaries:
  assumes "processUserInput_run n e fresh conversationState userInput = (steps, out)"
  shows "toolCalls (newTurnState conversationState fresh userInput) = []
       \<and> toolResults (newTurnState conversationState fresh userInput) = []
       \<and> (\<forall>final. out = Finished final \<longrightarrow> toolCalls final = [] \<and> toolResults final = [])
       \<and> (\<forall>i<length steps.
            toolCalls (snd (steps ! i)) = [] \<and>
            (toolResults (snd (steps ! i)) \<noteq> [] \<longleftrightarrow>
               \<not> (Suc i = length steps \<and> out = Finished (snd (steps ! i)))))"
proof -
  let ?st = "newTurnState conversationState fresh userInput"
  from assms have r: "run n e (Suc fresh) ?st = (steps, out)"
    by (simp add: processUserInput_run_def)
  have start: "toolCalls ?st = []" "toolResults ?st = []"
    by (simp_all add: newTurnState_def)
  from run_toolCalls_empty[OF r start(1)]
  have calls: "toolCalls (snd (steps ! i)) = []" if "i < length steps" for i
    using that by simp
  have fin: "toolCalls final = [] \<and> toolResults final = []" if "out = Finished final" for final
  proof -
    from r that have "run n e (Suc fresh) ?st = (steps, Finished final)" by simp
    from run_finished[OF this]
    have f: "steps \<noteq> []" "final = snd (last steps)" "toolResults final = []" by blast+
    from f(1,2) have "final = snd (steps ! (length steps - 1))"
      by (simp add: last_conv_nth)
    with calls[of "length steps - 1"] f show ?thesis by simp
  qed
  have mid: "toolResults (snd (steps ! i)) \<noteq> [] \<longleftrightarrow>
               \<not> (Suc i = length steps \<and> out = Finished (snd (steps ! i)))"
    if "i < length steps" for i
    using run_stops_iff[OF r that] by blast
  from start fin calls mid show ?thesis by blast
qed

text \<open>The theorem at the example run, started by \<^verbatim>\<open>processUserInput\<close> on an empty
  conversation.\<close>

theorem scratch_lists_empty_at_turn_boundaries_witness:
  "processUserInput_run (Suc (Suc 0)) searchEnv 0
     \<lparr>messages = [], toolCalls = [], toolResults = []\<rparr> ''weather?''
     = (searchSteps, Finished afterFinalStep)
   \<and> toolCalls afterFinalStep = [] \<and> toolResults afterFinalStep = []
   \<and> toolCalls (snd (searchSteps ! 0)) = []
   \<and> toolResults (snd (searchSteps ! 0)) \<noteq> []"
proof -
  have r: "processUserInput_run (Suc (Suc 0)) searchEnv 0
     \<lparr>messages = [], toolCalls = [], toolResults = []\<rparr> ''weather?''
     = (searchSteps, Finished afterFinalStep)"
    using search_run by (simp add: processUserInput_run_def newTurnState_def)
  note t = scratch_lists_empty_at_turn_boundaries[OF r]
  have len: "length searchSteps = 2" by (simp add: searchSteps_def)
  from t have f: "toolCalls afterFinalStep = [] \<and> toolResults afterFinalStep = []" by blast
  from t have "\<forall>i<length searchSteps.
            toolCalls (snd (searchSteps ! i)) = [] \<and>
            (toolResults (snd (searchSteps ! i)) \<noteq> [] \<longleftrightarrow>
               \<not> (Suc i = length searchSteps \<and> Finished afterFinalStep = Finished (snd (searchSteps ! i))))"
    by blast
  from this[THEN spec, of 0] len
  have m: "toolCalls (snd (searchSteps ! 0)) = [] \<and> toolResults (snd (searchSteps ! 0)) \<noteq> []"
    by simp
  from r f m show ?thesis by blast
qed

text \<open>
  C10. Whenever the filtering pass returns a list, every tool message of the history is
  in that list, whether or not an assistant message with the matching tool call is
  included; and there are inputs for which the returned list contains a tool message
  whose id is the id of no tool call in the list.
\<close>

theorem standalone_tool_results_included:
  assumes "processMessages H N h p = Inr out"
  shows "(\<forall>a c t. ToolMessage a c t \<in> set H \<longrightarrow> ToolMessage a c t \<in> set out)
       \<and> (\<exists>H' N' h' p' out' t.
            processMessages H' N' h' p' = Inr out' \<and> t \<in> set out' \<and>
            isToolMessageWithId t \<and> tool_call_id t \<notin> requestIds out')"
proof -
  let ?tm = "toolMessageMap H N"
  note ok = map_ok_toolMessageMap[of H N]
  from assms have res: "processMessages_loop ?tm h p H [] = Inr out"
    by (simp add: processMessages_def)
  have kept: "ToolMessage a c t \<in> set out" if "ToolMessage a c t \<in> set H" for a c t
    by (rule loop_contains[OF ok res that]) (simp add: stepOutput_def)
  let ?A = "AIMessage 1 []
              [\<lparr>tc_id = Some ''a'', tc_name = ''f'', tc_args = JNull\<rparr>,
               \<lparr>tc_id = Some ''b'', tc_name = ''g'', tc_args = JNull\<rparr>]"
  let ?T = "ToolMessage 2 ''r'' ''a''"
  have "processMessages [?A, ?T] [] False True = Inr [?T]"
    by (simp add: processMessages_def toolMessageMap_def collectToolMessage_def
          allToolCallsHaveResponses_def hasResponse_def)
  moreover have "tool_call_id ?T \<notin> requestIds [?T]"
    by (simp add: requestIds_def)
  ultimately have "\<exists>H' N' h' p' out' t.
            processMessages H' N' h' p' = Inr out' \<and> t \<in> set out' \<and>
            isToolMessageWithId t \<and> tool_call_id t \<notin> requestIds out'"
    by (intro exI[of _ "[?A, ?T]"] exI[of _ "[]"] exI[of _ False] exI[of _ True]
              exI[of _ "[?T]"] exI[of _ ?T]) simp
  with kept show ?thesis by blast
qed

text \<open>The theorem at a history whose assistant message has two tool calls and only one
  tool message: with pending tool calls the assistant message is skipped, the tool
  message stays.\<close>

theorem standalone_tool_results_included_witness:
  "(processMessages
      [AIMessage 1 []
        [\<lparr>tc_id = Some ''a'', tc_name = ''f'', tc_args = JNull\<rparr>,
         \<lparr>tc_id = Some ''b'', tc_name = ''g'', tc_args = JNull\<rparr>],
       ToolMessage 2 ''r'' ''a'']
      [] False True
    = Inr [ToolMessage 2 ''r'' ''a''])
   \<and> ToolMessage 2 ''r'' ''a'' \<in> set [ToolMessage 2 ''r'' ''a'']
   \<and> ''a'' \<notin> requestIds [ToolMessage 2 ''r'' ''a'']"
proof -
  have h: "processMessages
      [AIMessage 1 []
        [\<lparr>tc_id = Some ''a'', tc_name = ''f'', tc_args = JNull\<rparr>,
         \<lparr>tc_id = Some ''b'', tc_name = ''g'', tc_args = JNull\<rparr>],
       ToolMessage 2 ''r'' ''a'']
      [] False True
    = Inr [ToolMessage 2 ''r'' ''a'']"
    by (simp add: processMessages_def toolMessageMap_def collectToolMessage_def
          allToolCallsHaveResponses_def hasResponse_def)
  have kept: "ToolMessage 2 ''r'' ''a'' \<in> set [ToolMessage 2 ''r'' ''a'']"
    using standalone_tool_results_included[OF h, THEN conjunct1, THEN spec, of 2,
            THEN spec, of "''r''", THEN spec, of "''a''"] by simp
  have "''a'' \<notin> requestIds [ToolMessage 2 ''r'' ''a'']"
    by (simp add: requestIds_def)
  with h kept show ?thesis by blast
qed

end
